theory Spec2Isabelle
  imports Main "HOL-Library.Multiset"
begin

unbundle bit_operations_syntax

section \<open>Data model (types.ts)\<close>

datatype PriceTier = Base | Warm | Hot | Scorching

text \<open>One element of \<^verbatim>\<open>PricingConfig.tiers\<close>. The multiplier is a JS number that
  \<^verbatim>\<open>computeBuyIn\<close> converts with \<^verbatim>\<open>BigInt(...)\<close>; it is an integer here.\<close>

record TierDef =
  tier :: PriceTier
  maxDistance :: int
  multiplier :: int

record PricingConfig =
  cfg_baseBuyIn :: int
  tiers :: "TierDef list"

definition DEFAULT_PRICING_CONFIG :: PricingConfig where
  "DEFAULT_PRICING_CONFIG =
     \<lparr> cfg_baseBuyIn = 10000000000000000,
       tiers =
         [ \<lparr> tier = Base, maxDistance = 999999999999, multiplier = 1 \<rparr>,
           \<lparr> tier = Warm, maxDistance = 1000, multiplier = 2 \<rparr>,
           \<lparr> tier = Hot, maxDistance = 100, multiplier = 5 \<rparr>,
           \<lparr> tier = Scorching, maxDistance = 10, multiplier = 10 \<rparr> ] \<rparr>"

datatype RoundStatus = Active | Completed

record HintResult =
  digitsInPlace :: nat
  digitsCorrect :: nat
  numericDistance :: int
  isExactMatch :: bool
  priceTier :: PriceTier

record GuessRecord =
  player :: string
  guess :: string
  hint :: HintResult
  buyInPaid :: int
  timestamp :: nat

record RoundState =
  round_id :: string
  target :: string
  salt :: string
  commitmentHash :: string
  baseBuyIn :: int
  currentBuyIn :: int
  currentTier :: PriceTier
  pool :: int
  guesses :: "GuessRecord list"
  status :: RoundStatus
  winner :: "string option"
  startTimestamp :: nat
  endTimestamp :: "nat option"

text \<open>Every \<^verbatim>\<open>throw\<close> of the engine, as a value.
  \<^item> \<open>RoundNotFound\<close>, \<open>RoundNotActive\<close>, \<open>InsufficientBuyIn\<close>: the three guards of
    \<^verbatim>\<open>processGuess\<close>;
  \<^item> \<open>InvalidLength\<close>: "Target and guess must be 12 digits";
  \<^item> \<open>NotDecimal\<close>: \<^verbatim>\<open>BigInt(s)\<close> on a string that is not a plain decimal numeral
    (JavaScript raises a SyntaxError there or reads a signed, prefixed or padded literal;
    those forms are not modelled further, the request schema admits \<^verbatim>\<open>^\d{12}$\<close> only);
  \<^item> \<open>MissingTier\<close>: the TypeError of \<^verbatim>\<open>config.tiers.find(...)!.multiplier\<close> when no tier
    definition is found;
  \<^item> \<open>SignerNotInitialized\<close>: \<^verbatim>\<open>getSigner\<close> without a signer;
  \<^item> \<open>NumericOverflow\<close>: the TypeError (\<^verbatim>\<open>overflow\<close>) of \<^verbatim>\<open>solidityPackedKeccak256\<close> when a
    JavaScript number given for a \<^verbatim>\<open>uint256\<close> is not a safe integer.\<close>

datatype error =
    RoundNotFound
  | RoundNotActive
  | InsufficientBuyIn
  | InvalidLength
  | NotDecimal
  | MissingTier
  | SignerNotInitialized
  | NumericOverflow

section \<open>Pricing (pricing.ts)\<close>

text \<open>\<^verbatim>\<open>Array.prototype.indexOf\<close>: the first index holding the value, or \<open>-1\<close>.\<close>

fun indexOfFrom :: "'a list \<Rightarrow> 'a \<Rightarrow> int \<Rightarrow> int" where
  "indexOfFrom [] v i = -1"
| "indexOfFrom (x # xs) v i = (if x = v then i else indexOfFrom xs v (i + 1))"

definition indexOf :: "'a list \<Rightarrow> 'a \<Rightarrow> int" where
  "indexOf xs v = indexOfFrom xs v 0"

definition TIER_ORDER :: "PriceTier list" where
  "TIER_ORDER = [Base, Warm, Hot, Scorching]"

definition tierIndex :: "PriceTier \<Rightarrow> int" where
  "tierIndex t = indexOf TIER_ORDER t"

text \<open>The tiers are sorted by \<open>maxDistance\<close> ascending (the sort of JavaScript is stable, as
  \<open>sort_key\<close> is) and the first bracket that contains the distance wins; \<open>Base\<close> otherwise.\<close>

definition determinePriceTier :: "int \<Rightarrow> PricingConfig \<Rightarrow> PriceTier" where
  "determinePriceTier d config =
     (case find (\<lambda>t. d \<le> maxDistance t) (sort_key maxDistance (tiers config)) of
        Some t \<Rightarrow> tier t
      | None \<Rightarrow> Base)"

definition computeBuyIn :: "int \<Rightarrow> PricingConfig \<Rightarrow> error + int" where
  "computeBuyIn d config =
     (let tr = determinePriceTier d config in
      case find (\<lambda>t. tier t = tr) (tiers config) of
        None \<Rightarrow> Inl MissingTier
      | Some tierDef \<Rightarrow> Inr (cfg_baseBuyIn config * multiplier tierDef))"

definition shouldUpdatePrice :: "PriceTier \<Rightarrow> int \<Rightarrow> PricingConfig \<Rightarrow> bool" where
  "shouldUpdatePrice cur newDistance config =
     (let newTier = determinePriceTier newDistance config
      in tierIndex newTier > tierIndex cur)"

definition getMultiplier :: "PriceTier \<Rightarrow> PricingConfig \<Rightarrow> int" where
  "getMultiplier tr config =
     (case find (\<lambda>t. tier t = tr) (tiers config) of None \<Rightarrow> 1 | Some t \<Rightarrow> multiplier t)"

section \<open>Scoring (game.ts, calculateDistance)\<close>

text \<open>\<^verbatim>\<open>BigInt(s)\<close> on a decimal numeral: the digits are read left to right. A character
  is a digit when it occurs in \<open>''0123456789''\<close>, and its value is its position there.\<close>

definition digitVal :: "char \<Rightarrow> int" where
  "digitVal c = indexOf ''0123456789'' c"

definition isDigit :: "char \<Rightarrow> bool" where
  "isDigit c = (digitVal c \<noteq> -1)"

definition decimalValue :: "string \<Rightarrow> int" where
  "decimalValue s = foldl (\<lambda>acc c. 10 * acc + digitVal c) 0 s"

definition BigInt :: "string \<Rightarrow> error + int" where
  "BigInt s = (if s \<noteq> [] \<and> list_all isDigit s then Inr (decimalValue s) else Inl NotDecimal)"

text \<open>The first loop (bulls): position \<open>i\<close> of both working arrays is cleared when the two
  strings agree there. The state is \<open>(digitsInPlace, targetRemaining, guessRemaining)\<close>;
  \<open>None\<close> is \<^verbatim>\<open>null\<close>.\<close>

definition bullsStep ::
  "string \<Rightarrow> string \<Rightarrow> nat \<Rightarrow> nat \<times> char option list \<times> char option list
     \<Rightarrow> nat \<times> char option list \<times> char option list" where
  "bullsStep tgt gs i st =
     (case st of (n, targetRemaining, guessRemaining) \<Rightarrow>
        if tgt ! i = gs ! i
        then (n + 1, targetRemaining[i := None], guessRemaining[i := None])
        else (n, targetRemaining, guessRemaining))"

text \<open>The second loop (cows): a remaining guess digit consumes the first equal entry of
  \<open>targetRemaining\<close>. The state is \<open>(digitsCorrect, targetRemaining)\<close>.\<close>

definition cowsStep ::
  "char option list \<Rightarrow> nat \<Rightarrow> nat \<times> char option list \<Rightarrow> nat \<times> char option list" where
  "cowsStep guessRemaining i st =
     (case st of (n, targetRemaining) \<Rightarrow>
        (case guessRemaining ! i of
           None \<Rightarrow> (n, targetRemaining)
         | Some c \<Rightarrow>
             (let idx = indexOf targetRemaining (Some c)
              in if idx \<noteq> -1 then (n + 1, targetRemaining[nat idx := None])
                 else (n, targetRemaining))))"

definition calculateDistance :: "string \<Rightarrow> string \<Rightarrow> PricingConfig \<Rightarrow> error + HintResult" where
  "calculateDistance tgt gs config =
     (if length tgt \<noteq> 12 \<or> length gs \<noteq> 12 then Inl InvalidLength
      else
        (case fold (bullsStep tgt gs) [0..<12] (0, map Some tgt, map Some gs) of
           (inPlace, targetRemaining, guessRemaining) \<Rightarrow>
        (case fold (cowsStep guessRemaining) [0..<12] (0, targetRemaining) of
           (correct, _) \<Rightarrow>
        (case BigInt tgt of Inl e \<Rightarrow> Inl e | Inr tv \<Rightarrow>
        (case BigInt gs of Inl e \<Rightarrow> Inl e | Inr gv \<Rightarrow>
           (let dist = (if tv > gv then tv - gv else gv - tv)
            in Inr \<lparr> digitsInPlace = inPlace,
                     digitsCorrect = correct,
                     numericDistance = dist,
                     isExactMatch = (inPlace = 12),
                     priceTier = determinePriceTier dist config \<rparr>))))))"

section \<open>Auxiliary notions for the scoring proofs\<close>

text \<open>The entries of a working array that are still there (not \<^verbatim>\<open>null\<close>).\<close>

fun somes :: "'a option list \<Rightarrow> 'a list" where
  "somes [] = []"
| "somes (None # xs) = somes xs"
| "somes (Some x # xs) = x # somes xs"

text \<open>One cow step on a list element instead of an index.\<close>

definition cowsElem :: "char option \<Rightarrow> nat \<times> char option list \<Rightarrow> nat \<times> char option list" where
  "cowsElem g st =
     (case st of (n, targetRemaining) \<Rightarrow>
        (case g of
           None \<Rightarrow> (n, targetRemaining)
         | Some c \<Rightarrow>
             (let idx = indexOf targetRemaining (Some c)
              in if idx \<noteq> -1 then (n + 1, targetRemaining[nat idx := None])
                 else (n, targetRemaining))))"

text \<open>What the first loop leaves behind, position by position.\<close>

definition bullCount :: "string \<Rightarrow> string \<Rightarrow> nat" where
  "bullCount t g = length (filter (\<lambda>(a, b). a = b) (zip t g))"

definition clearedTarget :: "string \<Rightarrow> string \<Rightarrow> char option list" where
  "clearedTarget t g = map (\<lambda>(a, b). if a = b then None else Some a) (zip t g)"

definition clearedGuess :: "string \<Rightarrow> string \<Rightarrow> char option list" where
  "clearedGuess t g = map (\<lambda>(a, b). if a = b then None else Some b) (zip t g)"

text \<open>The value of a decimal numeral as the specification reads it: digit \<open>i\<close> weighs
  \<open>10 ^ (length s - 1 - i)\<close>.\<close>

definition decimalSpec :: "string \<Rightarrow> int" where
  "decimalSpec s = (\<Sum>i < length s. digitVal (s ! i) * 10 ^ (length s - 1 - i))"

text \<open>The strings the request schema admits: \<^verbatim>\<open>^\d{12}$\<close>.\<close>

definition is12Digits :: "string \<Rightarrow> bool" where
  "is12Digits s = (length s = 12 \<and> list_all isDigit s)"

section \<open>Signed messages and the audit data model (types.ts)\<close>

text \<open>The \<^verbatim>\<open>baseBuyIn\<close>, \<^verbatim>\<open>newBuyIn\<close> and \<^verbatim>\<open>numericDistance\<close> fields of the signed messages
  hold \<^verbatim>\<open>x.toString()\<close> of a bigint; the integer itself stands for its decimal text.\<close>

record SignedStartRound =
  ssr_roundId :: string
  ssr_commitmentHash :: string
  ssr_baseBuyIn :: int
  ssr_nonce :: nat
  ssr_signature :: string

record SignedHint =
  sh_roundId :: string
  sh_player :: string
  sh_digitsCorrect :: nat
  sh_digitsInPlace :: nat
  sh_numericDistance :: int
  sh_nonce :: nat
  sh_signature :: string

record SignedPriceUpdate =
  pu_roundId :: string
  pu_newBuyIn :: int
  pu_nonce :: nat
  pu_signature :: string

record SignedWinnerDeclaration =
  wd_roundId :: string
  wd_winner :: string
  wd_nonce :: nat
  wd_signature :: string

record SignedAuditRoot =
  sar_roundId :: string
  sar_merkleRoot :: string
  sar_entryCount :: nat
  sar_nonce :: nat
  sar_signature :: string

datatype AuditEntryType = RoundStart | Guess | Hint | PriceChange | Winner

record AuditEntry =
  index :: nat
  entry_type :: AuditEntryType
  roundId :: string
  data :: string
  entry_timestamp :: nat
  previousHash :: string
  hash :: string

record AuditTrail =
  trail_roundId :: string
  entries :: "AuditEntry list"
  merkleRoot :: "string option"

text \<open>The values that occur in audit payloads; \<open>JDecimal\<close> is a bigint rendered with
  \<^verbatim>\<open>toString()\<close>, \<open>JTier\<close> a \<^verbatim>\<open>PriceTier\<close> enum value.\<close>

datatype Json = JString string | JNumber nat | JBool bool | JDecimal int | JTier PriceTier

type_synonym payload = "(string \<times> Json) list"

section \<open>The library the engine calls\<close>

text \<open>\<^verbatim>\<open>solidityPackedKeccak256(types, values)\<close> of ethers is called on three shapes of typed
  tuples: the fields of an audit entry (uint256, string, string, string, uint256, bytes32),
  two Merkle children (bytes32, bytes32) and the commitment (string, string, bytes32).\<close>

datatype Packed =
    EntryFields nat AuditEntryType string string nat string
  | NodePair string string
  | CommitmentFields string string string

text \<open>The typed tuples that the signing functions hash and hand to \<^verbatim>\<open>signMessage\<close>.\<close>

datatype Message =
    StartRoundMsg string string int nat
  | HintMsg string string nat nat int nat
  | PriceUpdateMsg string int nat
  | WinnerMsg string string nat
  | AuditRootMsg string string nat nat

datatype Wallet = FromPrivateKey string | FromPhrase string

text \<open>Keccak, the wallet's signature and \<^verbatim>\<open>JSON.stringify\<close> are not part of the repository;
  the engine is parametrised by them.\<close>

record Lib =
  keccak :: "Packed \<Rightarrow> string"
  signMessage :: "Wallet \<Rightarrow> Message \<Rightarrow> string"
  stringify :: "payload \<Rightarrow> string"

section \<open>Engine state\<close>

text \<open>The module-level variables of game.ts (\<open>rounds\<close>, \<open>activeRoundId\<close>), audit.ts
  (\<open>trails\<close>) and crypto.ts (\<open>signer\<close>, \<open>nonceCounter\<close>).\<close>

record Engine =
  rounds :: "string \<rightharpoonup> RoundState"
  activeRoundId :: "string option"
  trails :: "string \<rightharpoonup> AuditTrail"
  signer :: "Wallet option"
  nonceCounter :: nat

definition initEngine :: Engine where
  "initEngine = \<lparr> rounds = Map.empty, activeRoundId = None, trails = Map.empty,
                  signer = None, nonceCounter = 0 \<rparr>"

section \<open>Signer and nonces (crypto.ts)\<close>

definition initSignerFromMnemonic :: "string \<Rightarrow> Engine \<Rightarrow> Engine" where
  "initSignerFromMnemonic mnemonic s = s\<lparr> signer := Some (FromPhrase mnemonic), nonceCounter := 0 \<rparr>"

definition initSigner :: "string \<Rightarrow> Engine \<Rightarrow> Engine" where
  "initSigner privateKey s = s\<lparr> signer := Some (FromPrivateKey privateKey), nonceCounter := 0 \<rparr>"

definition getSigner :: "Engine \<Rightarrow> error + Wallet" where
  "getSigner s = (case signer s of None \<Rightarrow> Inl SignerNotInitialized | Some w \<Rightarrow> Inr w)"

text \<open>\<^verbatim>\<open>nonceCounter++\<close> on a JavaScript number: exact below \<open>2 ^ 53\<close>; there \<open>n + 1\<close> rounds
  back to \<open>n\<close>. The counter starts at \<open>0\<close>, so it never exceeds \<open>2 ^ 53\<close>.\<close>

definition jsIncrement :: "nat \<Rightarrow> nat" where
  "jsIncrement n = (if n < 2 ^ 53 then n + 1 else n)"

definition getNextNonce :: "Engine \<Rightarrow> nat \<times> Engine" where
  "getNextNonce s = (nonceCounter s, s\<lparr> nonceCounter := jsIncrement (nonceCounter s) \<rparr>)"

definition computeCommitment :: "Lib \<Rightarrow> string \<Rightarrow> string \<Rightarrow> string \<Rightarrow> string" where
  "computeCommitment L tgt rid slt = keccak L (CommitmentFields tgt rid slt)"

definition signStartRound :: "Lib \<Rightarrow> string \<Rightarrow> string \<Rightarrow> int \<Rightarrow> nat \<Rightarrow> Engine \<Rightarrow> error + string" where
  "signStartRound L rid commitment base nonce s =
     (case getSigner s of Inl e \<Rightarrow> Inl e
      | Inr w \<Rightarrow> Inr (signMessage L w (StartRoundMsg rid commitment base nonce)))"

definition signHint ::
  "Lib \<Rightarrow> string \<Rightarrow> string \<Rightarrow> nat \<Rightarrow> nat \<Rightarrow> int \<Rightarrow> nat \<Rightarrow> Engine \<Rightarrow> error + string" where
  "signHint L rid plr correct inPlace dist nonce s =
     (case getSigner s of Inl e \<Rightarrow> Inl e
      | Inr w \<Rightarrow> Inr (signMessage L w (HintMsg rid plr correct inPlace dist nonce)))"

definition signPriceUpdate :: "Lib \<Rightarrow> string \<Rightarrow> int \<Rightarrow> nat \<Rightarrow> Engine \<Rightarrow> error + string" where
  "signPriceUpdate L rid newBuyIn nonce s =
     (case getSigner s of Inl e \<Rightarrow> Inl e
      | Inr w \<Rightarrow> Inr (signMessage L w (PriceUpdateMsg rid newBuyIn nonce)))"

definition signWinner :: "Lib \<Rightarrow> string \<Rightarrow> string \<Rightarrow> nat \<Rightarrow> Engine \<Rightarrow> error + string" where
  "signWinner L rid w nonce s =
     (case getSigner s of Inl e \<Rightarrow> Inl e
      | Inr wallet \<Rightarrow> Inr (signMessage L wallet (WinnerMsg rid w nonce)))"

definition signAuditRoot :: "Lib \<Rightarrow> string \<Rightarrow> string \<Rightarrow> nat \<Rightarrow> nat \<Rightarrow> Engine \<Rightarrow> error + string" where
  "signAuditRoot L rid root entryCount nonce s =
     (case getSigner s of Inl e \<Rightarrow> Inl e
      | Inr w \<Rightarrow> Inr (signMessage L w (AuditRootMsg rid root entryCount nonce)))"

section \<open>Audit ledger (audit.ts)\<close>

definition ZERO_HASH :: string where
  "ZERO_HASH = ''0x0000000000000000000000000000000000000000000000000000000000000000''"

text \<open>A trail is created on first use, by readers as well as by writers.\<close>

definition getOrCreateTrail :: "string \<Rightarrow> Engine \<Rightarrow> AuditTrail \<times> Engine" where
  "getOrCreateTrail rid s =
     (case trails s rid of
        Some t \<Rightarrow> (t, s)
      | None \<Rightarrow>
          (let t = \<lparr> trail_roundId = rid, entries = [], merkleRoot = None \<rparr>
           in (t, s\<lparr> trails := (trails s)(rid \<mapsto> t) \<rparr>)))"

text \<open>\<open>now\<close> is the reading of \<^verbatim>\<open>Date.now()\<close> inside the call. The two numbers that are
  hashed here are the length of a JavaScript array (below \<open>2^32\<close>) and a time value (at most
  \<open>8.64 * 10^15\<close>, below \<open>2^53\<close>): both are safe integers, so this call of
  \<^verbatim>\<open>solidityPackedKeccak256\<close> does not throw.\<close>

definition addAuditEntry ::
  "Lib \<Rightarrow> nat \<Rightarrow> string \<Rightarrow> AuditEntryType \<Rightarrow> payload \<Rightarrow> Engine \<Rightarrow> AuditEntry \<times> Engine" where
  "addAuditEntry L now rid ty d s =
     (case getOrCreateTrail rid s of (trail, s1) \<Rightarrow>
        (let idx = length (entries trail);
             prev = (if idx > 0 then hash (entries trail ! (idx - 1)) else ZERO_HASH);
             dataStr = stringify L d;
             h = keccak L (EntryFields idx ty rid dataStr now prev);
             entry = \<lparr> index = idx, entry_type = ty, roundId = rid, data = dataStr,
                       entry_timestamp = now, previousHash = prev, hash = h \<rparr>
         in (entry,
             s1\<lparr> trails := (trails s1)(rid \<mapsto>
                   trail\<lparr> entries := entries trail @ [entry], merkleRoot := None \<rparr>) \<rparr>)))"

text \<open>The padding loop: \<^verbatim>\<open>while (n > 1 && (n & (n - 1)) !== 0) leaves.push(ZERO_HASH)\<close>.\<close>

definition needsPadding :: "nat \<Rightarrow> bool" where
  "needsPadding n = (n > 1 \<and> (n AND (n - 1)) \<noteq> 0)"

text \<open>One level of the tree: neighbours are hashed in pairs, a last leaf without a
  neighbour is paired with \<open>ZERO_HASH\<close>.\<close>

fun pairLevel :: "Lib \<Rightarrow> string list \<Rightarrow> string list" where
  "pairLevel L (left # right # rest) = keccak L (NodePair left right) # pairLevel L rest"
| "pairLevel L [left] = [keccak L (NodePair left ZERO_HASH)]"
| "pairLevel L [] = []"

text \<open>\<^verbatim>\<open>solidityPackedKeccak256\<close> on the six stored fields of an entry, as the verification
  loop calls it. The stored \<^verbatim>\<open>index\<close> and \<^verbatim>\<open>timestamp\<close> are JavaScript numbers packed as
  \<^verbatim>\<open>uint256\<close>: the library converts a number only when it is a safe integer (at most
  \<open>2^53 - 1\<close>) and throws a TypeError (\<^verbatim>\<open>overflow\<close>) otherwise. Stored numbers are naturals
  in this model. The \<^verbatim>\<open>bytes32\<close> argument is the stored \<open>previousHash\<close>, which the loop has
  found equal to the stored hash of the previous entry (or to the zero sentinel) before
  this call.\<close>

definition safeInteger :: "nat \<Rightarrow> bool" where
  "safeInteger n = (n < 2 ^ 53)"

definition entryHash :: "Lib \<Rightarrow> AuditEntry \<Rightarrow> error + string" where
  "entryHash L e =
     (if safeInteger (index e) \<and> safeInteger (entry_timestamp e)
      then Inr (keccak L (EntryFields (index e) (entry_type e) (roundId e) (data e)
                            (entry_timestamp e) (previousHash e)))
      else Inl NumericOverflow)"

text \<open>The verification loop, from position \<open>i\<close> on: the link to the previous entry is checked
  first, then the hash is recomputed (which may throw) and compared.\<close>

function verifyLoop :: "Lib \<Rightarrow> AuditEntry list \<Rightarrow> nat \<Rightarrow> error + bool" where
  "verifyLoop L es i =
     (if i < length es then
        (let entry = es ! i;
             expectedPrev = (if i > 0 then hash (es ! (i - 1)) else ZERO_HASH)
         in if previousHash entry \<noteq> expectedPrev then Inr False
            else (case entryHash L entry of
                    Inl err \<Rightarrow> Inl err
                  | Inr expectedHash \<Rightarrow>
                      if hash entry \<noteq> expectedHash then Inr False
                      else verifyLoop L es (i + 1)))
      else Inr True)"
  by pat_completeness auto
termination
  by (relation "measure (\<lambda>(L, es, i). length es - i)") auto

definition verifyChainIntegrity :: "Lib \<Rightarrow> string \<Rightarrow> Engine \<Rightarrow> (error + bool) \<times> Engine" where
  "verifyChainIntegrity L rid s =
     (case getOrCreateTrail rid s of (trail, s1) \<Rightarrow> (verifyLoop L (entries trail) 0, s1))"

definition getAuditTrail :: "string \<Rightarrow> Engine \<Rightarrow> AuditTrail \<times> Engine" where
  "getAuditTrail rid s = getOrCreateTrail rid s"

function padLeaves :: "string list \<Rightarrow> string list" where
  "padLeaves leaves =
     (if needsPadding (length leaves) then padLeaves (leaves @ [ZERO_HASH]) else leaves)"
  by pat_completeness auto

function merkleReduce :: "Lib \<Rightarrow> string list \<Rightarrow> string list" where
  "merkleReduce L leaves =
     (if length leaves > 1 then merkleReduce L (pairLevel L leaves) else leaves)"
  by pat_completeness auto

text \<open>After the two loops the root is \<^verbatim>\<open>leaves[0]\<close>; the list is a singleton there
  (lemma \<open>merkleReduce_padLeaves_single\<close>), so \<open>hd\<close> reads inside the list.\<close>

definition computeMerkleRoot :: "Lib \<Rightarrow> string \<Rightarrow> Engine \<Rightarrow> string \<times> Engine" where
  "computeMerkleRoot L rid s =
     (case getOrCreateTrail rid s of (trail, s1) \<Rightarrow>
        if length (entries trail) = 0 then (ZERO_HASH, s1)
        else
          (let leaves = map hash (entries trail);
               root = hd (merkleReduce L (padLeaves leaves))
           in (root, s1\<lparr> trails := (trails s1)(rid \<mapsto> trail\<lparr> merkleRoot := Some root \<rparr>) \<rparr>)))"

definition getSignedAuditRoot :: "Lib \<Rightarrow> string \<Rightarrow> Engine \<Rightarrow> (error + SignedAuditRoot) \<times> Engine" where
  "getSignedAuditRoot L rid s =
     (case computeMerkleRoot L rid s of (root, s1) \<Rightarrow>
      case getOrCreateTrail rid s1 of (trail, s2) \<Rightarrow>
      case getNextNonce s2 of (nonce, s3) \<Rightarrow>
        (let entryCount = length (entries trail) in
         case signAuditRoot L rid root entryCount nonce s3 of
           Inl e \<Rightarrow> (Inl e, s3)
         | Inr sig \<Rightarrow>
             (Inr \<lparr> sar_roundId = rid, sar_merkleRoot = root, sar_entryCount = entryCount,
                    sar_nonce = nonce, sar_signature = sig \<rparr>, s3)))"

section \<open>The Merkle root as the specification words it\<close>

text \<open>\<open>levels n\<close> is the number of halvings that bring \<open>n\<close> leaves down to one, so
  \<open>2 ^ levels n\<close> is the next power of two.\<close>

fun levels :: "nat \<Rightarrow> nat" where
  "levels n = (if n \<le> 1 then 0 else Suc (levels ((n + 1) div 2)))"

declare levels.simps [simp del]

definition nextPow2 :: "nat \<Rightarrow> nat" where
  "nextPow2 n = 2 ^ levels n"

text \<open>One reduction step on a sequence of even length, and the root: pad with the
  zero sentinel up to the next power of two, then reduce pairwise, level by level.\<close>

fun specLevel :: "Lib \<Rightarrow> string list \<Rightarrow> string list" where
  "specLevel L (left # right # rest) = keccak L (NodePair left right) # specLevel L rest"
| "specLevel L [left] = []"
| "specLevel L [] = []"






section \<open>Round lifecycle (game.ts)\<close>

text \<open>What a call of \<^verbatim>\<open>startNewRound\<close> takes from outside: the result of \<^verbatim>\<open>randomUUID()\<close>,
  the target and salt that \<^verbatim>\<open>generateTarget()\<close> drew, and the two readings of
  \<^verbatim>\<open>Date.now()\<close> (for \<open>startTimestamp\<close> and for the audit entry).\<close>

record StartInputs =
  uuid :: string
  gen_target :: string
  gen_salt :: string
  t_start :: nat
  t_startEntry :: nat

text \<open>The readings of \<^verbatim>\<open>Date.now()\<close> in \<^verbatim>\<open>processGuess\<close>, one per place that reads the
  clock; a reading is unused on a path that does not reach its place.\<close>

record GuessClock =
  t_record :: nat
  t_guessEntry :: nat
  t_hintEntry :: nat
  t_priceEntry :: nat
  t_end :: nat
  t_winnerEntry :: nat

record GuessResult =
  res_hint :: HintResult
  signedHint :: SignedHint
  priceUpdate :: "SignedPriceUpdate option"
  winnerDeclaration :: "SignedWinnerDeclaration option"

text \<open>The round is stored before the start message is signed, so a failing signature leaves
  the new round in the map.\<close>

definition startNewRound ::
  "Lib \<Rightarrow> StartInputs \<Rightarrow> int \<Rightarrow> Engine \<Rightarrow> (error + RoundState \<times> SignedStartRound) \<times> Engine" where
  "startNewRound L inp base s =
     (let rid = uuid inp;
          commitment = computeCommitment L (gen_target inp) rid (gen_salt inp);
          round = \<lparr> round_id = rid, target = gen_target inp, salt = gen_salt inp,
                    commitmentHash = commitment, baseBuyIn = base, currentBuyIn = base,
                    currentTier = Base, pool = 0, guesses = [], status = Active,
                    winner = None, startTimestamp = t_start inp, endTimestamp = None \<rparr>;
          s1 = s\<lparr> rounds := (rounds s)(rid \<mapsto> round), activeRoundId := Some rid \<rparr>
      in case getNextNonce s1 of (nonce, s2) \<Rightarrow>
         (case signStartRound L rid commitment base nonce s2 of
            Inl e \<Rightarrow> (Inl e, s2)
          | Inr sig \<Rightarrow>
              (let signedStart = \<lparr> ssr_roundId = rid, ssr_commitmentHash = commitment,
                                   ssr_baseBuyIn = base, ssr_nonce = nonce, ssr_signature = sig \<rparr>;
                   s3 = snd (addAuditEntry L (t_startEntry inp) rid RoundStart
                               [(''commitmentHash'', JString commitment),
                                (''baseBuyIn'', JDecimal base)] s2)
               in (Inr (round, signedStart), s3))))"

text \<open>Lines 216 to 236 of \<^verbatim>\<open>processGuess\<close>: the pricing escalation. \<open>r\<close> is the round object,
  which is also what the map holds under \<open>rid\<close>; every assignment to it is written back.\<close>

definition escalatePrice ::
  "Lib \<Rightarrow> GuessClock \<Rightarrow> string \<Rightarrow> HintResult \<Rightarrow> RoundState \<Rightarrow> Engine
     \<Rightarrow> (error + SignedPriceUpdate option) \<times> RoundState \<times> Engine" where
  "escalatePrice L clk rid h r s =
     (if shouldUpdatePrice (currentTier r) (numericDistance h) DEFAULT_PRICING_CONFIG then
        (let newTier = determinePriceTier (numericDistance h) DEFAULT_PRICING_CONFIG in
         case computeBuyIn (numericDistance h) DEFAULT_PRICING_CONFIG of
           Inl e \<Rightarrow> (Inl e, r, s)
         | Inr newBuyIn \<Rightarrow>
             (let r1 = r\<lparr> currentTier := newTier, currentBuyIn := newBuyIn \<rparr>;
                  s1 = s\<lparr> rounds := (rounds s)(rid \<mapsto> r1) \<rparr>
              in case getNextNonce s1 of (priceNonce, s2) \<Rightarrow>
                 (case signPriceUpdate L rid newBuyIn priceNonce s2 of
                    Inl e \<Rightarrow> (Inl e, r1, s2)
                  | Inr priceSig \<Rightarrow>
                      (Inr (Some \<lparr> pu_roundId = rid, pu_newBuyIn = newBuyIn,
                                   pu_nonce = priceNonce, pu_signature = priceSig \<rparr>),
                       r1,
                       snd (addAuditEntry L (t_priceEntry clk) rid PriceChange
                              [(''newTier'', JTier newTier), (''newBuyIn'', JDecimal newBuyIn)] s2)))))
      else (Inr None, r, s))"

text \<open>Lines 239 to 255 of \<^verbatim>\<open>processGuess\<close>: the winner check.\<close>

definition declareWinner ::
  "Lib \<Rightarrow> GuessClock \<Rightarrow> string \<Rightarrow> string \<Rightarrow> HintResult \<Rightarrow> RoundState \<Rightarrow> Engine
     \<Rightarrow> (error + SignedWinnerDeclaration option) \<times> RoundState \<times> Engine" where
  "declareWinner L clk rid plr h r s =
     (if isExactMatch h then
        (let r1 = r\<lparr> status := Completed, winner := Some plr, endTimestamp := Some (t_end clk) \<rparr>;
             s1 = s\<lparr> rounds := (rounds s)(rid \<mapsto> r1) \<rparr>
         in case getNextNonce s1 of (winnerNonce, s2) \<Rightarrow>
            (case signWinner L rid plr winnerNonce s2 of
               Inl e \<Rightarrow> (Inl e, r1, s2)
             | Inr winnerSig \<Rightarrow>
                 (Inr (Some \<lparr> wd_roundId = rid, wd_winner = plr,
                              wd_nonce = winnerNonce, wd_signature = winnerSig \<rparr>),
                  r1,
                  snd (addAuditEntry L (t_winnerEntry clk) rid Winner [(''winner'', JString plr)] s2))))
      else (Inr None, r, s))"

text \<open>Lines 169 to 192 of \<^verbatim>\<open>processGuess\<close>: the guess is recorded, the pool grows, and the
  Guess and Hint audit entries are appended.\<close>

definition recordGuess ::
  "Lib \<Rightarrow> GuessClock \<Rightarrow> string \<Rightarrow> string \<Rightarrow> string \<Rightarrow> int \<Rightarrow> HintResult \<Rightarrow> RoundState \<Rightarrow> Engine
     \<Rightarrow> RoundState \<times> Engine" where
  "recordGuess L clk rid plr gs paid h r s =
     (let rec = \<lparr> player = plr, guess = gs, hint = h, buyInPaid = paid,
                    timestamp = t_record clk \<rparr>;
          r1 = r\<lparr> guesses := guesses r @ [rec], pool := pool r + paid \<rparr>;
          s1 = s\<lparr> rounds := (rounds s)(rid \<mapsto> r1) \<rparr>;
          s2 = snd (addAuditEntry L (t_guessEntry clk) rid Guess
                      [(''player'', JString plr), (''guessHash'', JString gs),
                       (''buyInPaid'', JDecimal paid)] s1);
          s3 = snd (addAuditEntry L (t_hintEntry clk) rid Hint
                      [(''player'', JString plr),
                       (''digitsInPlace'', JNumber (digitsInPlace h)),
                       (''digitsCorrect'', JNumber (digitsCorrect h)),
                       (''numericDistance'', JDecimal (numericDistance h))] s2)
      in (r1, s3))"

text \<open>\<^verbatim>\<open>processGuess\<close>. The result pairs what the caller sees (the error thrown or the value
  returned) with the engine state the call leaves behind: an exception does not undo the
  assignments made before it.\<close>

definition processGuess ::
  "Lib \<Rightarrow> GuessClock \<Rightarrow> string \<Rightarrow> string \<Rightarrow> string \<Rightarrow> int \<Rightarrow> Engine
     \<Rightarrow> (error + GuessResult) \<times> Engine" where
  "processGuess L clk rid plr gs paid s =
     (case rounds s rid of
        None \<Rightarrow> (Inl RoundNotFound, s)
      | Some round \<Rightarrow>
          if status round \<noteq> Active then (Inl RoundNotActive, s)
          else if paid < currentBuyIn round then (Inl InsufficientBuyIn, s)
          else
            (case calculateDistance (target round) gs DEFAULT_PRICING_CONFIG of
               Inl e \<Rightarrow> (Inl e, s)
             | Inr h \<Rightarrow>
                 (case recordGuess L clk rid plr gs paid h round s of (r1, s3) \<Rightarrow>
                  case getNextNonce s3 of (hintNonce, s4) \<Rightarrow>
                  case signHint L rid plr (digitsCorrect h) (digitsInPlace h)
                         (numericDistance h) hintNonce s4 of
                    Inl e \<Rightarrow> (Inl e, s4)
                  | Inr hintSig \<Rightarrow>
                      (let sHint = \<lparr> sh_roundId = rid, sh_player = plr,
                                     sh_digitsCorrect = digitsCorrect h,
                                     sh_digitsInPlace = digitsInPlace h,
                                     sh_numericDistance = numericDistance h,
                                     sh_nonce = hintNonce, sh_signature = hintSig \<rparr>
                       in case escalatePrice L clk rid h r1 s4 of
                            (Inl e, r2, s5) \<Rightarrow> (Inl e, s5)
                          | (Inr pUpdate, r2, s5) \<Rightarrow>
                              (case declareWinner L clk rid plr h r2 s5 of
                                 (Inl e, r3, s6) \<Rightarrow> (Inl e, s6)
                               | (Inr wDecl, r3, s6) \<Rightarrow>
                                   (Inr \<lparr> res_hint = h, signedHint = sHint,
                                          priceUpdate = pUpdate,
                                          winnerDeclaration = wDecl \<rparr>, s6))))))"

section \<open>Sequences of operations\<close>

text \<open>The operations the server (index.ts) runs on the engine.\<close>

datatype Op =
    OpInitSigner string
  | OpInitSignerFromMnemonic string
  | OpStartNewRound StartInputs int
  | OpProcessGuess GuessClock string string string int
  | OpGetAuditTrail string
  | OpComputeMerkleRoot string
  | OpGetSignedAuditRoot string

fun step :: "Lib \<Rightarrow> Op \<Rightarrow> Engine \<Rightarrow> Engine" where
  "step L (OpInitSigner k) s = initSigner k s"
| "step L (OpInitSignerFromMnemonic m) s = initSignerFromMnemonic m s"
| "step L (OpStartNewRound inp base) s = snd (startNewRound L inp base s)"
| "step L (OpProcessGuess clk rid plr gs paid) s = snd (processGuess L clk rid plr gs paid s)"
| "step L (OpGetAuditTrail rid) s = snd (getAuditTrail rid s)"
| "step L (OpComputeMerkleRoot rid) s = snd (computeMerkleRoot L rid s)"
| "step L (OpGetSignedAuditRoot rid) s = snd (getSignedAuditRoot L rid s)"

definition run :: "Lib \<Rightarrow> Op list \<Rightarrow> Engine \<Rightarrow> Engine" where
  "run L ops s = fold (step L) ops s"

text \<open>\<^verbatim>\<open>randomUUID()\<close> is taken to return an identifier that no round has yet: every
  \<open>OpStartNewRound\<close> of the sequence comes with a \<open>uuid\<close> outside the map.\<close>

fun freshIds :: "Lib \<Rightarrow> Op list \<Rightarrow> Engine \<Rightarrow> bool" where
  "freshIds L [] s = True"
| "freshIds L (OpStartNewRound inp base # ops) s =
     (rounds s (uuid inp) = None \<and> freshIds L ops (step L (OpStartNewRound inp base) s))"
| "freshIds L (op # ops) s = freshIds L ops (step L op s)"

section \<open>Notions used to state the properties\<close>

text \<open>The winner is set exactly when the round is completed.\<close>

definition roundOk :: "RoundState \<Rightarrow> bool" where
  "roundOk r = (winner r \<noteq> None \<longleftrightarrow> status r = Completed)"

text \<open>\<open>k\<close> successive calls of \<^verbatim>\<open>getNextNonce\<close>.\<close>

fun takeNonces :: "nat \<Rightarrow> Engine \<Rightarrow> nat list \<times> Engine" where
  "takeNonces 0 s = ([], s)"
| "takeNonces (Suc k) s =
     (case getNextNonce s of (n, s1) \<Rightarrow>
      case takeNonces k s1 of (ns, s2) \<Rightarrow> (n # ns, s2))"

text \<open>The nonces of the messages that one successful \<^verbatim>\<open>processGuess\<close> returns, in the
  order in which they were signed.\<close>

definition guessNonces :: "GuessResult \<Rightarrow> nat list" where
  "guessNonces res =
     sh_nonce (signedHint res)
       # (case priceUpdate res of None \<Rightarrow> [] | Some p \<Rightarrow> [pu_nonce p])
       @ (case winnerDeclaration res of None \<Rightarrow> [] | Some w \<Rightarrow> [wd_nonce w])"

text \<open>A sequence of appends; an item is the clock reading, the round, the entry type and
  the payload of one \<^verbatim>\<open>addAuditEntry\<close> call.\<close>

definition appendAll ::
  "Lib \<Rightarrow> (nat \<times> string \<times> AuditEntryType \<times> payload) list \<Rightarrow> Engine \<Rightarrow> Engine" where
  "appendAll L items s =
     fold (\<lambda>(now, rid, ty, d) s'. snd (addAuditEntry L now rid ty d s')) items s"

text \<open>Tampering with the store: entry \<open>i\<close> of a trail is overwritten, or the entries of a
  trail are replaced altogether.\<close>

definition setEntries :: "string \<Rightarrow> AuditEntry list \<Rightarrow> Engine \<Rightarrow> Engine" where
  "setEntries rid es s =
     (case trails s rid of
        None \<Rightarrow> s
      | Some t \<Rightarrow> s\<lparr> trails := (trails s)(rid \<mapsto> t\<lparr> entries := es \<rparr>) \<rparr>)"

definition entriesOf :: "string \<Rightarrow> Engine \<Rightarrow> AuditEntry list" where
  "entriesOf rid s = (case trails s rid of None \<Rightarrow> [] | Some t \<Rightarrow> entries t)"


text \<open>Entry \<open>j\<close> of a trail passes the two checks of the verification loop.\<close>

definition chainOk :: "Lib \<Rightarrow> AuditEntry list \<Rightarrow> nat \<Rightarrow> bool" where
  "chainOk L es j =
     (previousHash (es ! j) = (if j > 0 then hash (es ! (j - 1)) else ZERO_HASH)
      \<and> entryHash L (es ! j) = Inr (hash (es ! j)))"

section \<open>Sample inputs\<close>

text \<open>A stand-in for the library, to run the engine on concrete inputs: the "hash" of an
  audit entry is its payload text, the "hash" of two Merkle children writes both down behind
  the length of the first (so it has no collisions), the signature is a fixed string.\<close>

fun toyKeccak :: "Packed \<Rightarrow> string" where
  "toyKeccak (EntryFields i ty rid d ts p) = d"
| "toyKeccak (NodePair a b) = replicate (length a) CHR ''1'' @ CHR ''0'' # a @ b"
| "toyKeccak (CommitmentFields t r sl) = t @ r @ sl"

definition sampleLib :: Lib where
  "sampleLib = \<lparr> keccak = toyKeccak,
                 signMessage = (\<lambda>w m. ''signature''),
                 stringify = (\<lambda>d. concat (map fst d)) \<rparr>"

definition sampleStart :: "string \<Rightarrow> StartInputs" where
  "sampleStart rid = \<lparr> uuid = rid, gen_target = ''123456789012'', gen_salt = ''0xab'',
                       t_start = 1000, t_startEntry = 1001 \<rparr>"

definition sampleClock :: GuessClock where
  "sampleClock = \<lparr> t_record = 2000, t_guessEntry = 2001, t_hintEntry = 2002,
                   t_priceEntry = 2003, t_end = 2004, t_winnerEntry = 2005 \<rparr>"

text \<open>The engine after \<^verbatim>\<open>startNewRound\<close> was called before any signer was initialised: the call
  throws, and the round is in the map.\<close>

definition sampleUnsigned :: Engine where
  "sampleUnsigned =
     snd (startNewRound sampleLib (sampleStart ''r1'') 10000000000000000 initEngine)"

text \<open>The engine after \<^verbatim>\<open>initSigner\<close> and one \<^verbatim>\<open>startNewRound(base)\<close>.\<close>

definition sampleSigned :: "int \<Rightarrow> Engine" where
  "sampleSigned base =
     snd (startNewRound sampleLib (sampleStart ''r1'') base (initSigner ''k'' initEngine))"

text \<open>A signer is initialised, a round is started, and the first guess is the target.\<close>

definition sampleWinOps :: "Op list" where
  "sampleWinOps =
     [OpInitSigner ''k'',
      OpStartNewRound (sampleStart ''r1'') 10000000000000000,
      OpProcessGuess sampleClock ''r1'' ''0xp'' ''123456789012'' 10000000000000000]"

text \<open>A trail of two entries built by \<^verbatim>\<open>addAuditEntry\<close>, and a forged last entry: other data,
  and the hash recomputed over the forged fields.\<close>

definition sampleTrail :: Engine where
  "sampleTrail =
     appendAll sampleLib
       [(1001, ''r1'', RoundStart, [(''a'', JBool True)]),
        (1002, ''r1'', Guess, [(''b'', JBool True)])] initEngine"

definition sampleForged :: AuditEntry where
  "sampleForged =
     \<lparr> index = 1, entry_type = Guess, roundId = ''r1'', data = ''forged'',
       entry_timestamp = 1002, previousHash = ''a'',
       hash = keccak sampleLib (EntryFields 1 Guess ''r1'' ''forged'' 1002 ''a'') \<rparr>"




section \<open>Scoring: bulls, cows and numeric distance\<close>

lemma indexOfFrom_absent: "v \<notin> set xs \<Longrightarrow> indexOfFrom xs v i = -1"
  by (induction xs arbitrary: i) auto

lemma indexOfFrom_present:
  "v \<in> set xs \<Longrightarrow> i \<le> indexOfFrom xs v i \<and> indexOfFrom xs v i < i + int (length xs)
     \<and> xs ! nat (indexOfFrom xs v i - i) = v"
proof (induction xs arbitrary: i)
  case Nil
  then show ?case by simp
next
  case (Cons x xs)
  show ?case
  proof (cases "x = v")
    case True
    then show ?thesis by simp
  next
    case False
    with Cons.prems have mem: "v \<in> set xs" by simp
    from Cons.IH [OF mem, of "i + 1"]
    have ih: "i + 1 \<le> indexOfFrom xs v (i + 1)"
      "indexOfFrom xs v (i + 1) < i + 1 + int (length xs)"
      "xs ! nat (indexOfFrom xs v (i + 1) - (i + 1)) = v" by auto
    from ih(1) have "nat (indexOfFrom xs v (i + 1) - i) = Suc (nat (indexOfFrom xs v (i + 1) - (i + 1)))"
      by linarith
    with ih False show ?thesis by simp
  qed
qed

lemma indexOf_absent: "v \<notin> set xs \<Longrightarrow> indexOf xs v = -1"
  by (simp add: indexOf_def indexOfFrom_absent)

lemma indexOf_present:
  assumes "v \<in> set xs"
  shows "0 \<le> indexOf xs v" and "nat (indexOf xs v) < length xs" and "xs ! nat (indexOf xs v) = v"
  using indexOfFrom_present [OF assms, of 0] by (auto simp: indexOf_def)

lemma somes_mem: "Some c \<in> set xs \<longleftrightarrow> c \<in> set (somes xs)"
  by (induction xs rule: somes.induct) auto

lemma mset_somes_clear:
  "i < length xs \<Longrightarrow> xs ! i = Some c \<Longrightarrow>
     mset (somes (xs[i := None])) = mset (somes xs) - {#c#}"
proof (induction xs arbitrary: i rule: somes.induct)
  case 1
  then show ?case by simp
next
  case (2 xs)
  then show ?case by (cases i) auto
next
  case (3 x xs)
  show ?case
  proof (cases i)
    case 0
    with 3 show ?thesis by simp
  next
    case (Suc j)
    with 3 have "mset (somes (xs[j := None])) = mset (somes xs) - {#c#}" by simp
    moreover from 3 Suc have "Some c \<in> set xs"
      by (metis Suc_less_eq length_Cons nth_Cons_Suc nth_mem)
    then have "c \<in># mset (somes xs)"
      by (simp add: somes_mem)
    ultimately show ?thesis using Suc by simp
  qed
qed

lemma cows_fold_index:
  "fold (cowsStep gr) [0..<length gr] st = fold cowsElem gr st"
proof -
  have "cowsStep gr = cowsElem \<circ> (!) gr"
    by (auto simp: fun_eq_iff cowsStep_def cowsElem_def)
  then have "fold (cowsStep gr) [0..<length gr] st = fold cowsElem (map ((!) gr) [0..<length gr]) st"
    by (simp add: fold_map)
  then show ?thesis by (simp add: map_nth)
qed

lemma cows_fold_count:
  "fst (fold cowsElem gr (n, tr)) = n + size (mset (somes gr) \<inter># mset (somes tr))"
proof (induction gr arbitrary: n tr rule: somes.induct)
  case 1
  then show ?case by simp
next
  case (2 gr)
  then show ?case by (simp add: cowsElem_def)
next
  case (3 c gr)
  show ?case
  proof (cases "Some c \<in> set tr")
    case True
    let ?idx = "indexOf tr (Some c)"
    from indexOf_present [OF True]
    have idx: "0 \<le> ?idx" "nat ?idx < length tr" "tr ! nat ?idx = Some c" by auto
    then have step: "cowsElem (Some c) (n, tr) = (n + 1, tr[nat ?idx := None])"
      by (simp add: cowsElem_def)
    from True have mem: "c \<in># mset (somes tr)" by (simp add: somes_mem)
    have "fst (fold cowsElem (Some c # gr) (n, tr))
            = n + 1 + size (mset (somes gr) \<inter># (mset (somes tr) - {#c#}))"
      using step 3 [of "n + 1" "tr[nat ?idx := None]"] mset_somes_clear [OF idx(2,3)] by simp
    also have "\<dots> = n + size (add_mset c (mset (somes gr)) \<inter># mset (somes tr))"
      using mem by (simp add: inter_add_left2)
    finally show ?thesis by simp
  next
    case False
    then have step: "cowsElem (Some c) (n, tr) = (n, tr)"
      by (simp add: cowsElem_def indexOf_absent)
    from False have "c \<notin># mset (somes tr)" by (simp add: somes_mem)
    then show ?thesis using step 3 [of n tr] by (simp add: inter_add_left1)
  qed
qed

lemma bulls_fold_prefix:
  assumes len: "length g = length t"
  shows "n \<le> length t \<Longrightarrow>
     fold (bullsStep t g) [0..<n] (0, map Some t, map Some g) =
       (bullCount (take n t) (take n g),
        clearedTarget (take n t) (take n g) @ map Some (drop n t),
        clearedGuess (take n t) (take n g) @ map Some (drop n g))"
proof (induction n)
  case 0
  show ?case by (simp add: bullCount_def clearedTarget_def clearedGuess_def)
next
  case (Suc n)
  then have n: "n < length t" "n < length g" using len by auto
  have tk: "take (Suc n) t = take n t @ [t ! n]" "take (Suc n) g = take n g @ [g ! n]"
    using n by (simp_all add: take_Suc_conv_app_nth)
  have dr: "drop n t = t ! n # drop (Suc n) t" "drop n g = g ! n # drop (Suc n) g"
    using n by (simp_all add: Cons_nth_drop_Suc)
  have lens: "length (clearedTarget (take n t) (take n g)) = n"
    "length (clearedGuess (take n t) (take n g)) = n"
    using n by (simp_all add: clearedTarget_def clearedGuess_def)
  have upd: "\<And>xs y ys v. length xs = n \<Longrightarrow> (xs @ y # ys)[n := v] = xs @ v # ys"
    by (simp add: list_update_append)
  from Suc have ih: "fold (bullsStep t g) [0..<n] (0, map Some t, map Some g) =
       (bullCount (take n t) (take n g),
        clearedTarget (take n t) (take n g) @ map Some (drop n t),
        clearedGuess (take n t) (take n g) @ map Some (drop n g))" by simp
  have zp: "zip (take n t @ [t ! n]) (take n g @ [g ! n]) = zip (take n t) (take n g) @ [(t ! n, g ! n)]"
    using n by simp
  have bc: "bullCount (take n t @ [t ! n]) (take n g @ [g ! n]) =
      (if t ! n = g ! n then bullCount (take n t) (take n g) + 1 else bullCount (take n t) (take n g))"
    by (simp add: bullCount_def zp)
  have ct: "clearedTarget (take n t @ [t ! n]) (take n g @ [g ! n]) =
      clearedTarget (take n t) (take n g) @ [if t ! n = g ! n then None else Some (t ! n)]"
    by (simp add: clearedTarget_def zp)
  have cg: "clearedGuess (take n t @ [t ! n]) (take n g @ [g ! n]) =
      clearedGuess (take n t) (take n g) @ [if t ! n = g ! n then None else Some (g ! n)]"
    by (simp add: clearedGuess_def zp)
  show ?case
    unfolding upt_Suc_append [OF le0] fold_append comp_def ih tk bc ct cg
    by (simp add: bullsStep_def dr upd lens)
qed

lemma bulls_fold:
  assumes "length g = length t"
  shows "fold (bullsStep t g) [0..<length t] (0, map Some t, map Some g) =
       (bullCount t g, clearedTarget t g, clearedGuess t g)"
  using bulls_fold_prefix [OF assms, of "length t"] assms by simp

lemma somes_clearedTarget:
  "somes (clearedTarget t g) = map fst (filter (\<lambda>(a, b). a \<noteq> b) (zip t g))"
proof -
  have "somes (map (\<lambda>(a, b). if a = b then None else Some a) zs)
          = map fst (filter (\<lambda>(a, b). a \<noteq> b) zs)" for zs :: "(char \<times> char) list"
    by (induction zs) auto
  then show ?thesis by (simp add: clearedTarget_def)
qed

lemma somes_clearedGuess:
  "somes (clearedGuess t g) = map snd (filter (\<lambda>(a, b). a \<noteq> b) (zip t g))"
proof -
  have "somes (map (\<lambda>(a, b). if a = b then None else Some b) zs)
          = map snd (filter (\<lambda>(a, b). a \<noteq> b) zs)" for zs :: "(char \<times> char) list"
    by (induction zs) auto
  then show ?thesis by (simp add: clearedGuess_def)
qed

lemma zip_swap: "zip g t = map (\<lambda>(a, b). (b, a)) (zip t g)"
  by (induction t g rule: list_induct2') auto

lemma bullCount_commute: "bullCount g t = bullCount t g"
proof -
  have "filter (\<lambda>(a, b). a = b) (map (\<lambda>(a, b). (b, a)) zs)
          = map (\<lambda>(a, b). (b, a)) (filter (\<lambda>(a, b). a = b) zs)" for zs :: "(char \<times> char) list"
    by (induction zs) auto
  then show ?thesis unfolding bullCount_def by (subst zip_swap) simp
qed

lemma somes_cleared_swap:
  "somes (clearedTarget g t) = somes (clearedGuess t g)"
  "somes (clearedGuess g t) = somes (clearedTarget t g)"
proof -
  have "map fst (filter (\<lambda>(a, b). a \<noteq> b) (map (\<lambda>(a, b). (b, a)) zs))
          = map snd (filter (\<lambda>(a, b). a \<noteq> b) zs)"
       "map snd (filter (\<lambda>(a, b). a \<noteq> b) (map (\<lambda>(a, b). (b, a)) zs))
          = map fst (filter (\<lambda>(a, b). a \<noteq> b) zs)" for zs :: "(char \<times> char) list"
    by (induction zs) auto
  then show "somes (clearedTarget g t) = somes (clearedGuess t g)"
    "somes (clearedGuess g t) = somes (clearedTarget t g)"
    unfolding somes_clearedTarget somes_clearedGuess by (subst zip_swap, simp)+
qed

lemma bullCount_plus_rest:
  "length g = length t \<Longrightarrow> bullCount t g + length (somes (clearedTarget t g)) = length t"
  unfolding bullCount_def somes_clearedTarget
  using sum_length_filter_compl [of "\<lambda>(a, b). a = b" "zip t g"]
  by (simp add: case_prod_unfold)

lemma bullCount_full:
  assumes "length g = length t"
  shows "bullCount t g = length t \<longleftrightarrow> t = g"
proof
  assume "t = g"
  then show "bullCount t g = length t"
    by (simp add: bullCount_def zip_same_conv_map filter_map comp_def)
next
  assume full: "bullCount t g = length t"
  with assms have "length (filter (\<lambda>(a, b). a = b) (zip t g)) = length (zip t g)"
    by (simp add: bullCount_def)
  then have "filter (\<lambda>(a, b). a = b) (zip t g) = zip t g"
    by (metis length_filter_less less_irrefl_nat filter_True)
  then have "\<forall>(a, b) \<in> set (zip t g). a = b"
    by (metis (mono_tags, lifting) filter_id_conv case_prodI2)
  with assms show "t = g"
    by (simp add: list_eq_iff_zip_eq)
qed

lemma isDigit_iff: "isDigit c \<longleftrightarrow> c \<in> set ''0123456789''"
proof
  assume "isDigit c"
  then show "c \<in> set ''0123456789''"
    unfolding isDigit_def digitVal_def using indexOf_absent by metis
next
  assume "c \<in> set ''0123456789''"
  from indexOf_present(1) [OF this] show "isDigit c"
    by (simp add: isDigit_def digitVal_def)
qed

lemma digitVal_range:
  assumes "isDigit c"
  shows "0 \<le> digitVal c \<and> digitVal c \<le> 9"
proof -
  from assms have m: "c \<in> set ''0123456789''"
    by (simp only: isDigit_iff)
  have "0 \<le> indexOf ''0123456789'' c" "nat (indexOf ''0123456789'' c) < length ''0123456789''"
    using indexOf_present [OF m] by blast+
  moreover have "length ''0123456789'' = 10" by simp
  ultimately show ?thesis unfolding digitVal_def by linarith
qed

lemma indexOf_inj: "v \<in> set xs \<Longrightarrow> w \<in> set xs \<Longrightarrow> indexOf xs v = indexOf xs w \<Longrightarrow> v = w"
  by (metis indexOf_present(3))

lemma digitVal_inj: "isDigit c \<Longrightarrow> isDigit d \<Longrightarrow> digitVal c = digitVal d \<Longrightarrow> c = d"
  unfolding isDigit_iff digitVal_def by (rule indexOf_inj)

lemma decimalValue_snoc: "decimalValue (s @ [c]) = 10 * decimalValue s + digitVal c"
  by (simp add: decimalValue_def)

lemma decimalValue_bounds:
  "list_all isDigit s \<Longrightarrow> 0 \<le> decimalValue s \<and> decimalValue s < 10 ^ length s"
proof (induction s rule: rev_induct)
  case Nil
  show ?case by (simp add: decimalValue_def)
next
  case (snoc c s)
  then have ih: "0 \<le> decimalValue s" "decimalValue s + 1 \<le> 10 ^ length s" by auto
  from snoc.prems have "0 \<le> digitVal c" "digitVal c \<le> 9"
    using digitVal_range by auto
  moreover from ih(2) have "10 * decimalValue s + 10 \<le> 10 * 10 ^ length s" by linarith
  ultimately show ?case using ih(1) by (simp add: decimalValue_snoc)
qed

lemma decimalValue_inj:
  "length a = length b \<Longrightarrow> list_all isDigit a \<Longrightarrow> list_all isDigit b \<Longrightarrow>
     decimalValue a = decimalValue b \<Longrightarrow> a = b"
proof (induction a arbitrary: b rule: rev_induct)
  case Nil
  then show ?case by simp
next
  case (snoc c a)
  then obtain d b' where b: "b = b' @ [d]"
    by (cases b rule: rev_cases) auto
  from snoc.prems b have dig: "isDigit c" "isDigit d" "list_all isDigit a" "list_all isDigit b'"
    and len: "length a = length b'" by auto
  from snoc.prems(4) b have eq: "10 * decimalValue a + digitVal c = 10 * decimalValue b' + digitVal d"
    by (simp add: decimalValue_snoc)
  from digitVal_range [OF dig(1)] digitVal_range [OF dig(2)] eq
  have "digitVal c = digitVal d" "decimalValue a = decimalValue b'" by presburger+
  with snoc.IH [OF len dig(3,4)] digitVal_inj [OF dig(1,2)] b show ?case by simp
qed

lemma decimalValue_spec: "decimalValue s = decimalSpec s"
proof (induction s rule: rev_induct)
  case Nil
  show ?case by (simp add: decimalValue_def decimalSpec_def)
next
  case (snoc c s)
  have "decimalSpec (s @ [c]) =
          (\<Sum>i < length s. digitVal (s ! i) * 10 ^ (length s - i)) + digitVal c"
    by (simp add: decimalSpec_def nth_append)
  also have "(\<Sum>i < length s. digitVal (s ! i) * 10 ^ (length s - i))
               = (\<Sum>i < length s. 10 * (digitVal (s ! i) * 10 ^ (length s - 1 - i)))"
  proof (rule sum.cong)
    fix i assume "i \<in> {..<length s}"
    then have "length s - i = Suc (length s - 1 - i)" by auto
    then show "digitVal (s ! i) * 10 ^ (length s - i) = 10 * (digitVal (s ! i) * 10 ^ (length s - 1 - i))"
      by simp
  qed simp
  also have "\<dots> = 10 * decimalSpec s"
    by (simp add: decimalSpec_def sum_distrib_left)
  finally show ?case using snoc by (simp add: decimalValue_snoc)
qed

lemma BigInt_12: "is12Digits s \<Longrightarrow> BigInt s = Inr (decimalValue s)"
  by (auto simp: is12Digits_def BigInt_def)

lemma calculateDistance_12:
  assumes t: "is12Digits t" and g: "is12Digits g"
  shows "calculateDistance t g config =
     Inr \<lparr> digitsInPlace = bullCount t g,
           digitsCorrect = size (mset (somes (clearedGuess t g)) \<inter># mset (somes (clearedTarget t g))),
           numericDistance = \<bar>decimalValue t - decimalValue g\<bar>,
           isExactMatch = (bullCount t g = 12),
           priceTier = determinePriceTier \<bar>decimalValue t - decimalValue g\<bar> config \<rparr>"
proof -
  from t g have len: "length t = 12" "length g = 12" "length g = length t"
    by (simp_all add: is12Digits_def)
  have b: "fold (bullsStep t g) [0..<12] (0, map Some t, map Some g)
             = (bullCount t g, clearedTarget t g, clearedGuess t g)"
    using bulls_fold [OF len(3)] len(1) by simp
  have "length (clearedGuess t g) = 12"
    using len by (simp add: clearedGuess_def)
  then have "fold (cowsStep (clearedGuess t g)) [0..<12] (0, clearedTarget t g)
               = fold cowsElem (clearedGuess t g) (0, clearedTarget t g)"
    using cows_fold_index [of "clearedGuess t g"] by simp
  then have c: "fst (fold (cowsStep (clearedGuess t g)) [0..<12] (0, clearedTarget t g))
               = size (mset (somes (clearedGuess t g)) \<inter># mset (somes (clearedTarget t g)))"
    using cows_fold_count [of "clearedGuess t g" 0 "clearedTarget t g"] by simp
  have d: "(if decimalValue t > decimalValue g then decimalValue t - decimalValue g
            else decimalValue g - decimalValue t) = \<bar>decimalValue t - decimalValue g\<bar>"
    by simp
  show ?thesis
    unfolding calculateDistance_def b BigInt_12 [OF t] BigInt_12 [OF g]
    using len(1,2) c d by (simp add: case_prod_unfold Let_def)
qed

subsection \<open>The claims on scoring\<close>

lemma cows_le_rest:
  "size (mset (somes (clearedGuess t g)) \<inter># mset (somes (clearedTarget t g)))
     \<le> length (somes (clearedTarget t g))"
proof -
  have "size (mset (somes (clearedGuess t g)) \<inter># mset (somes (clearedTarget t g)))
          \<le> size (mset (somes (clearedTarget t g)))"
    by (rule size_mset_mono) simp
  then show ?thesis by simp
qed

lemma cows_same: "size (mset (somes (clearedGuess s s)) \<inter># mset (somes (clearedTarget s s))) = 0"
proof -
  have "filter (\<lambda>(a, b). a \<noteq> b) (zip s s) = []"
    by (simp add: zip_same_conv_map filter_map comp_def)
  then show ?thesis by (simp add: somes_clearedGuess)
qed

text \<open>
  Claim C3. For 12-digit decimal strings \<open>secret\<close> and \<open>gs\<close> the scoring function returns a
  hint with \<open>digitsInPlace + digitsCorrect \<le> 12\<close>; \<open>digitsInPlace = 12\<close>, and likewise
  \<open>isExactMatch\<close>, holds exactly when the two strings are identical; and scoring a string
  against itself gives 12 bulls and no cows.
\<close>

theorem score_bulls_cows:
  assumes "is12Digits secret" and "is12Digits gs"
  shows "(case calculateDistance secret gs config of
            Inl e \<Rightarrow> False
          | Inr h \<Rightarrow> digitsInPlace h + digitsCorrect h \<le> 12
                     \<and> (digitsInPlace h = 12 \<longleftrightarrow> secret = gs)
                     \<and> (isExactMatch h \<longleftrightarrow> secret = gs))
       \<and> (case calculateDistance secret secret config of
            Inl e \<Rightarrow> False
          | Inr h \<Rightarrow> digitsInPlace h = 12 \<and> digitsCorrect h = 0 \<and> isExactMatch h)"
proof -
  from assms have len: "length secret = 12" "length gs = length secret"
    by (simp_all add: is12Digits_def)
  have sum: "bullCount secret gs
      + size (mset (somes (clearedGuess secret gs)) \<inter># mset (somes (clearedTarget secret gs))) \<le> 12"
    using bullCount_plus_rest [OF len(2)] cows_le_rest [of secret gs] len(1) by linarith
  have full: "bullCount secret gs = 12 \<longleftrightarrow> secret = gs"
    using bullCount_full [OF len(2)] len(1) by simp
  have self: "bullCount secret secret = 12"
    using bullCount_full [of secret secret] len(1) by simp
  show ?thesis
    unfolding calculateDistance_12 [OF assms(1) assms(2)] calculateDistance_12 [OF assms(1) assms(1)]
    using sum full self cows_same [of secret] by simp
qed

theorem score_bulls_cows_witness:
  "is12Digits ''123456789012'' \<and> is12Digits ''210000000000'' \<and>
   (case calculateDistance ''123456789012'' ''210000000000'' DEFAULT_PRICING_CONFIG of
      Inl e \<Rightarrow> False
    | Inr h \<Rightarrow> digitsInPlace h + digitsCorrect h \<le> 12
               \<and> (digitsInPlace h = 12 \<longleftrightarrow> ''123456789012'' = ''210000000000'')
               \<and> (isExactMatch h \<longleftrightarrow> ''123456789012'' = ''210000000000''))"
proof -
  have a: "is12Digits ''123456789012''"
    by (simp add: is12Digits_def isDigit_def digitVal_def indexOf_def)
  have b: "is12Digits ''210000000000''"
    by (simp add: is12Digits_def isDigit_def digitVal_def indexOf_def)
  from score_bulls_cows [OF a b, of DEFAULT_PRICING_CONFIG] a b show ?thesis
    by blast
qed

text \<open>
  Claim C4. For 12-digit decimal strings the hint's \<open>numericDistance\<close> is the absolute
  difference of the two exact base-10 values; it is the same with the arguments swapped, it is
  \<open>0\<close> exactly when the strings are equal, it never exceeds \<open>999999999999\<close>, and the pair
  \<open>(''000000000000'', ''999999999999'')\<close> attains that bound.
\<close>

theorem score_numeric_distance:
  assumes "is12Digits a" and "is12Digits b"
  shows "(case (calculateDistance a b config, calculateDistance b a config) of
            (Inr h, Inr h') \<Rightarrow>
               numericDistance h = \<bar>decimalSpec a - decimalSpec b\<bar>
               \<and> numericDistance h' = numericDistance h
               \<and> (numericDistance h = 0 \<longleftrightarrow> a = b)
               \<and> 0 \<le> numericDistance h \<and> numericDistance h \<le> 999999999999
          | _ \<Rightarrow> False)
       \<and> (case calculateDistance ''000000000000'' ''999999999999'' config of
            Inr h \<Rightarrow> numericDistance h = 999999999999
          | Inl e \<Rightarrow> False)"
proof -
  from assms have len: "length a = 12" "length b = 12" and dig: "list_all isDigit a" "list_all isDigit b"
    by (simp_all add: is12Digits_def)
  have zero: "\<bar>decimalValue a - decimalValue b\<bar> = 0 \<longleftrightarrow> a = b"
    using decimalValue_inj [of a b] len dig by auto
  have ba: "0 \<le> decimalValue a" "decimalValue a < 10 ^ 12"
    using decimalValue_bounds [OF dig(1)] len(1) by simp_all
  have bb: "0 \<le> decimalValue b" "decimalValue b < 10 ^ 12"
    using decimalValue_bounds [OF dig(2)] len(2) by simp_all
  have bound: "\<bar>decimalValue a - decimalValue b\<bar> \<le> 999999999999"
    using ba bb by simp
  have sym: "\<bar>decimalValue b - decimalValue a\<bar> = \<bar>decimalValue a - decimalValue b\<bar>"
    by simp
  have lo: "is12Digits ''000000000000''"
    by (simp add: is12Digits_def isDigit_def digitVal_def indexOf_def)
  have hi: "is12Digits ''999999999999''"
    by (simp add: is12Digits_def isDigit_def digitVal_def indexOf_def)
  have ext: "\<bar>decimalValue ''000000000000'' - decimalValue ''999999999999''\<bar> = 999999999999"
    by (simp add: decimalValue_def digitVal_def indexOf_def)
  have first: "(case (calculateDistance a b config, calculateDistance b a config) of
            (Inr h, Inr h') \<Rightarrow>
               numericDistance h = \<bar>decimalSpec a - decimalSpec b\<bar>
               \<and> numericDistance h' = numericDistance h
               \<and> (numericDistance h = 0 \<longleftrightarrow> a = b)
               \<and> 0 \<le> numericDistance h \<and> numericDistance h \<le> 999999999999
          | _ \<Rightarrow> False)"
    unfolding calculateDistance_12 [OF assms(1) assms(2)] calculateDistance_12 [OF assms(2) assms(1)]
    using zero bound sym by (simp add: decimalValue_spec)
  have second: "(case calculateDistance ''000000000000'' ''999999999999'' config of
            Inr h \<Rightarrow> numericDistance h = 999999999999
          | Inl e \<Rightarrow> False)"
    unfolding calculateDistance_12 [OF lo hi] using ext by simp
  from first second show ?thesis by (rule conjI)
qed

theorem score_numeric_distance_witness:
  "is12Digits ''123456789012'' \<and> is12Digits ''123000000000'' \<and>
   (case (calculateDistance ''123456789012'' ''123000000000'' DEFAULT_PRICING_CONFIG,
          calculateDistance ''123000000000'' ''123456789012'' DEFAULT_PRICING_CONFIG) of
      (Inr h, Inr h') \<Rightarrow>
         numericDistance h = \<bar>decimalSpec ''123456789012'' - decimalSpec ''123000000000''\<bar>
         \<and> numericDistance h' = numericDistance h
         \<and> (numericDistance h = 0 \<longleftrightarrow> ''123456789012'' = ''123000000000'')
         \<and> 0 \<le> numericDistance h \<and> numericDistance h \<le> 999999999999
    | _ \<Rightarrow> False)"
proof -
  have a: "is12Digits ''123456789012''"
    by (simp add: is12Digits_def isDigit_def digitVal_def indexOf_def)
  have b: "is12Digits ''123000000000''"
    by (simp add: is12Digits_def isDigit_def digitVal_def indexOf_def)
  from score_numeric_distance [OF a b, of DEFAULT_PRICING_CONFIG] a b show ?thesis
    by blast
qed

text \<open>
  Claim C10. For 12-digit decimal strings \<open>a\<close> and \<open>b\<close>, swapping the two arguments of the
  scoring function changes neither \<open>digitsInPlace\<close> nor \<open>digitsCorrect\<close>, although the second
  loop treats the two arguments differently.
\<close>

theorem score_swap_symmetric:
  assumes "is12Digits a" and "is12Digits b"
  shows "(case (calculateDistance a b config, calculateDistance b a config) of
            (Inr h, Inr h') \<Rightarrow>
               digitsInPlace h' = digitsInPlace h \<and> digitsCorrect h' = digitsCorrect h
          | _ \<Rightarrow> False)"
proof -
  have bulls: "bullCount b a = bullCount a b"
    by (rule bullCount_commute)
  have "mset (somes (clearedGuess b a)) \<inter># mset (somes (clearedTarget b a))
          = mset (somes (clearedTarget a b)) \<inter># mset (somes (clearedGuess a b))"
    by (simp only: somes_cleared_swap(1) [of b a] somes_cleared_swap(2) [of b a])
  then have cows: "size (mset (somes (clearedGuess b a)) \<inter># mset (somes (clearedTarget b a)))
          = size (mset (somes (clearedGuess a b)) \<inter># mset (somes (clearedTarget a b)))"
    using subset_mset.inf_commute [of "mset (somes (clearedTarget a b))" "mset (somes (clearedGuess a b))"]
    by simp
  show ?thesis
    unfolding calculateDistance_12 [OF assms(1) assms(2)] calculateDistance_12 [OF assms(2) assms(1)]
    using bulls cows by simp
qed

theorem score_swap_symmetric_witness:
  "is12Digits ''111222333444'' \<and> is12Digits ''112233444333'' \<and>
   (case (calculateDistance ''111222333444'' ''112233444333'' DEFAULT_PRICING_CONFIG,
          calculateDistance ''112233444333'' ''111222333444'' DEFAULT_PRICING_CONFIG) of
      (Inr h, Inr h') \<Rightarrow>
         digitsInPlace h' = digitsInPlace h \<and> digitsCorrect h' = digitsCorrect h
    | _ \<Rightarrow> False)"
proof -
  have a: "is12Digits ''111222333444''"
    by (simp add: is12Digits_def isDigit_def digitVal_def indexOf_def)
  have b: "is12Digits ''112233444333''"
    by (simp add: is12Digits_def isDigit_def digitVal_def indexOf_def)
  from score_swap_symmetric [OF a b, of DEFAULT_PRICING_CONFIG] a b show ?thesis
    by blast
qed

section \<open>The Merkle loops\<close>

lemma pow2_and_pred: "((2::nat) ^ k AND (2 ^ k - 1)) = 0"
proof -
  have "(2::nat) ^ k - 1 = mask k" by (simp add: mask_eq_exp_minus_1)
  then have "((2::nat) ^ k AND (2 ^ k - 1)) = take_bit k (2 ^ k)"
    by (simp add: take_bit_eq_mask)
  then show ?thesis by (simp add: take_bit_of_exp)
qed

lemma and_pred_zero_pow2: "n > 0 \<Longrightarrow> (n AND (n - 1)) = 0 \<Longrightarrow> \<exists>k. n = (2::nat) ^ k"
proof (induction n rule: less_induct)
  case (less n)
  show ?case
  proof (cases "even n")
    case True
    then obtain m where m: "n = 2 * m" by (auto elim: evenE)
    with less.prems have mpos: "m > 0" by simp
    then have odd: "odd (n - 1)" using m by simp
    have d: "(n - 1) div 2 = m - 1" using m mpos by simp
    have "(n AND (n - 1)) = 2 * (m AND (m - 1))"
      using and_rec [of n "n - 1"] True d m by simp
    with less.prems have "(m AND (m - 1)) = 0" by simp
    moreover have "m < n" using m mpos by simp
    ultimately obtain k where "m = 2 ^ k" using less.IH mpos by blast
    then have "n = 2 ^ Suc k" using m by simp
    then show ?thesis by blast
  next
    case False
    then obtain m where m: "n = 2 * m + 1" by (auto elim: oddE)
    have "(n AND (n - 1)) = 2 * m"
      using and_rec [of n "n - 1"] m by simp
    with less.prems have "m = 0" by simp
    then have "n = 2 ^ 0" using m by simp
    then show ?thesis by blast
  qed
qed

lemma needsPadding_iff: "needsPadding n \<longleftrightarrow> n > 1 \<and> (\<forall>k. n \<noteq> 2 ^ k)"
proof
  assume np: "needsPadding n"
  then have "\<forall>k. n \<noteq> 2 ^ k" using pow2_and_pred by (auto simp: needsPadding_def)
  with np show "n > 1 \<and> (\<forall>k. n \<noteq> 2 ^ k)" by (simp add: needsPadding_def)
next
  assume a: "n > 1 \<and> (\<forall>k. n \<noteq> 2 ^ k)"
  then have "(n AND (n - 1)) \<noteq> 0" using and_pred_zero_pow2 [of n] by auto
  with a show "needsPadding n" by (simp add: needsPadding_def)
qed

lemma le_nextPow2: "n \<le> nextPow2 n"
  unfolding nextPow2_def
proof (induction n rule: levels.induct)
  case (1 n)
  show ?case
  proof (cases "n \<le> 1")
    case True
    then show ?thesis by (simp add: levels.simps)
  next
    case False
    with 1 have "(n + 1) div 2 \<le> 2 ^ levels ((n + 1) div 2)" by simp
    then have "n \<le> 2 * 2 ^ levels ((n + 1) div 2)" by linarith
    with False show ?thesis by (subst levels.simps) simp
  qed
qed

lemma nextPow2_least: "n \<le> 2 ^ j \<Longrightarrow> levels n \<le> j"
proof (induction n arbitrary: j rule: levels.induct)
  case (1 n)
  show ?case
  proof (cases "n \<le> 1")
    case True
    then show ?thesis by (simp add: levels.simps)
  next
    case False
    with "1.prems" obtain i where j: "j = Suc i" by (cases j) auto
    with "1.prems" have "(n + 1) div 2 \<le> 2 ^ i" by simp
    with 1 False have "levels ((n + 1) div 2) \<le> i" by simp
    with False j show ?thesis by (subst levels.simps) simp
  qed
qed

lemma levels_pow2: "levels (2 ^ k) = k"
proof (rule antisym)
  show "levels (2 ^ k) \<le> k" by (rule nextPow2_least) simp
  have "(2::nat) ^ k \<le> 2 ^ levels (2 ^ k)" using le_nextPow2 [of "2 ^ k"] by (simp add: nextPow2_def)
  then show "k \<le> levels (2 ^ k)" by simp
qed

lemma levels_Suc: "needsPadding n \<Longrightarrow> levels (Suc n) = levels n"
proof (rule antisym)
  assume np: "needsPadding n"
  then have "n \<noteq> 2 ^ levels n" by (simp add: needsPadding_iff)
  with le_nextPow2 [of n] have "Suc n \<le> 2 ^ levels n" by (simp add: nextPow2_def)
  then show "levels (Suc n) \<le> levels n" by (rule nextPow2_least)
  have "n \<le> 2 ^ levels (Suc n)" using le_nextPow2 [of "Suc n"] by (simp add: nextPow2_def)
  then show "levels n \<le> levels (Suc n)" by (rule nextPow2_least)
qed


lemma lt_nextPow2: "needsPadding n \<Longrightarrow> n < nextPow2 n"
proof -
  assume "needsPadding n"
  then have "n \<noteq> 2 ^ levels n" by (simp add: needsPadding_iff)
  with le_nextPow2 [of n] show ?thesis by (simp add: nextPow2_def)
qed

lemma nextPow2_Suc: "needsPadding n \<Longrightarrow> nextPow2 (Suc n) = nextPow2 n"
  by (simp add: nextPow2_def levels_Suc)

termination padLeaves
proof (relation "measure (\<lambda>leaves. nextPow2 (length leaves) - length leaves)")
  show "wf (measure (\<lambda>leaves. nextPow2 (length leaves) - length leaves))" by simp
next
  fix leaves :: "string list"
  assume "needsPadding (length leaves)"
  then show "(leaves @ [ZERO_HASH], leaves) \<in> measure (\<lambda>leaves. nextPow2 (length leaves) - length leaves)"
    using lt_nextPow2 [of "length leaves"] nextPow2_Suc [of "length leaves"] by simp
qed

lemma length_pairLevel: "length (pairLevel L xs) = (length xs + 1) div 2"
  by (induction L xs rule: pairLevel.induct) simp_all

termination merkleReduce
  by (relation "measure (\<lambda>(L, leaves). length leaves)") (auto simp: length_pairLevel)

declare padLeaves.simps [simp del]
declare merkleReduce.simps [simp del]

lemma padLeaves_eq:
  "leaves \<noteq> [] \<Longrightarrow>
     padLeaves leaves = leaves @ replicate (nextPow2 (length leaves) - length leaves) ZERO_HASH"
proof (induction leaves rule: padLeaves.induct)
  case (1 leaves)
  show ?case
  proof (cases "needsPadding (length leaves)")
    case True
    define m where "m = nextPow2 (length leaves) - Suc (length leaves)"
    with lt_nextPow2 [OF True] have m: "nextPow2 (length leaves) - length leaves = Suc m"
      by simp
    then have m': "nextPow2 (Suc (length leaves)) - Suc (length leaves) = m"
      using nextPow2_Suc [OF True] by simp
    have "padLeaves leaves = padLeaves (leaves @ [ZERO_HASH])"
      using True by (subst padLeaves.simps) simp
    also have "\<dots> = (leaves @ [ZERO_HASH]) @ replicate m ZERO_HASH"
      using "1.IH" [OF True] m' by simp
    finally show ?thesis using m by simp
  next
    case False
    have "\<exists>k. length leaves = 2 ^ k"
    proof (cases "length leaves > 1")
      case True
      with False show ?thesis by (simp add: needsPadding_iff)
    next
      case False
      with "1.prems" have "length leaves = 2 ^ 0" by (cases leaves) auto
      then show ?thesis by blast
    qed
    then obtain k where "length leaves = 2 ^ k" by blast
    then have "nextPow2 (length leaves) = length leaves"
      by (simp add: nextPow2_def levels_pow2)
    with False show ?thesis by (subst padLeaves.simps) simp
  qed
qed

lemma pairLevel_even: "even (length xs) \<Longrightarrow> pairLevel L xs = specLevel L xs"
  by (induction L xs rule: pairLevel.induct) simp_all

lemma length_specLevel: "length (specLevel L xs) = length xs div 2"
  by (induction L xs rule: specLevel.induct) simp_all

lemma merkleReduce_pow2:
  "length xs = 2 ^ k \<Longrightarrow>
     merkleReduce L xs = (specLevel L ^^ k) xs \<and> length (merkleReduce L xs) = 1"
proof (induction k arbitrary: xs)
  case 0
  then show ?case by (subst (1 2) merkleReduce.simps) simp
next
  case (Suc k)
  then have ev: "even (length xs)" by simp
  from Suc.prems have "length xs = 2 * 2 ^ k" by simp
  moreover have "(0::nat) < 2 ^ k" by simp
  ultimately have gt: "length xs > 1" by linarith
  have len: "length (specLevel L xs) = 2 ^ k"
    using Suc.prems by (simp add: length_specLevel)
  have unroll: "merkleReduce L xs = merkleReduce L (specLevel L xs)"
    using gt pairLevel_even [OF ev] by (subst merkleReduce.simps) simp
  from Suc.IH [OF len]
  have a: "merkleReduce L (specLevel L xs) = (specLevel L ^^ k) (specLevel L xs)"
    by (rule conjunct1)
  from Suc.IH [OF len]
  have b: "length (merkleReduce L (specLevel L xs)) = 1"
    by (rule conjunct2)
  have c: "(specLevel L ^^ Suc k) xs = (specLevel L ^^ k) (specLevel L xs)"
    by (simp add: funpow_swap1)
  from a b show ?case unfolding unroll c by (rule conjI)
qed

lemma length_padLeaves: "leaves \<noteq> [] \<Longrightarrow> length (padLeaves leaves) = 2 ^ levels (length leaves)"
  using le_nextPow2 [of "length leaves"] by (simp add: padLeaves_eq nextPow2_def)

lemma merkleReduce_padLeaves_single:
  "leaves \<noteq> [] \<Longrightarrow> length (merkleReduce L (padLeaves leaves)) = 1"
  using merkleReduce_pow2 [OF length_padLeaves] by blast








section \<open>Pricing and the phases of a guess\<close>

lemma determinePriceTier_default:
  "determinePriceTier d DEFAULT_PRICING_CONFIG =
     (if d \<le> 10 then Scorching else if d \<le> 100 then Hot else if d \<le> 1000 then Warm else Base)"
  by (simp add: determinePriceTier_def DEFAULT_PRICING_CONFIG_def)

lemma computeBuyIn_default:
  "computeBuyIn d DEFAULT_PRICING_CONFIG =
     Inr (cfg_baseBuyIn DEFAULT_PRICING_CONFIG *
            (if d \<le> 10 then 10 else if d \<le> 100 then 5 else if d \<le> 1000 then 2 else 1))"
  by (simp add: computeBuyIn_def determinePriceTier_default) (simp add: DEFAULT_PRICING_CONFIG_def)

lemma tierIndex_values:
  "tierIndex Base = 0" "tierIndex Warm = 1" "tierIndex Hot = 2" "tierIndex Scorching = 3"
  by (simp_all add: tierIndex_def TIER_ORDER_def indexOf_def)

lemma addAuditEntry_frame:
  "rounds (snd (addAuditEntry L now rid ty d s)) = rounds s"
  "signer (snd (addAuditEntry L now rid ty d s)) = signer s"
  "nonceCounter (snd (addAuditEntry L now rid ty d s)) = nonceCounter s"
  "activeRoundId (snd (addAuditEntry L now rid ty d s)) = activeRoundId s"
  by (simp_all add: addAuditEntry_def getOrCreateTrail_def Let_def split: option.splits)

lemma getNextNonce_frame:
  "rounds (snd (getNextNonce s)) = rounds s"
  "signer (snd (getNextNonce s)) = signer s"
  "trails (snd (getNextNonce s)) = trails s"
  "activeRoundId (snd (getNextNonce s)) = activeRoundId s"
  "fst (getNextNonce s) = nonceCounter s"
  "nonceCounter (snd (getNextNonce s)) = jsIncrement (nonceCounter s)"
  by (simp_all add: getNextNonce_def)


lemma sign_ok:
  "signer s = Some w \<Longrightarrow> signStartRound L rid c b n s = Inr (signMessage L w (StartRoundMsg rid c b n))"
  "signer s = Some w \<Longrightarrow> signHint L rid plr dc dp dist n s = Inr (signMessage L w (HintMsg rid plr dc dp dist n))"
  "signer s = Some w \<Longrightarrow> signPriceUpdate L rid nb n s = Inr (signMessage L w (PriceUpdateMsg rid nb n))"
  "signer s = Some w \<Longrightarrow> signWinner L rid plr n s = Inr (signMessage L w (WinnerMsg rid plr n))"
  "signer s = Some w \<Longrightarrow> signAuditRoot L rid root cnt n s = Inr (signMessage L w (AuditRootMsg rid root cnt n))"
  by (simp_all add: signStartRound_def signHint_def signPriceUpdate_def signWinner_def
        signAuditRoot_def getSigner_def)

lemma sign_fail:
  "signer s = None \<Longrightarrow> signStartRound L rid c b n s = Inl SignerNotInitialized"
  "signer s = None \<Longrightarrow> signHint L rid plr dc dp dist n s = Inl SignerNotInitialized"
  "signer s = None \<Longrightarrow> signPriceUpdate L rid nb n s = Inl SignerNotInitialized"
  "signer s = None \<Longrightarrow> signWinner L rid plr n s = Inl SignerNotInitialized"
  "signer s = None \<Longrightarrow> signAuditRoot L rid root cnt n s = Inl SignerNotInitialized"
  by (simp_all add: signStartRound_def signHint_def signPriceUpdate_def signWinner_def
        signAuditRoot_def getSigner_def)


lemma jsIncrement_ge: "n \<le> jsIncrement n"
  by (simp add: jsIncrement_def)

lemma recordGuess_effect:
  assumes "recordGuess L clk rid plr gs paid h r s = (r1, s3)"
  shows "rounds s3 = (rounds s)(rid \<mapsto> r1)"
    and "r1 = r\<lparr> guesses := guesses r @ [\<lparr> player = plr, guess = gs, hint = h, buyInPaid = paid,
                   timestamp = t_record clk \<rparr>], pool := pool r + paid \<rparr>"
    and "signer s3 = signer s" and "nonceCounter s3 = nonceCounter s"
  using assms by (auto simp: recordGuess_def Let_def addAuditEntry_frame)

lemma escalatePrice_effect:
  assumes e: "escalatePrice L clk rid h r s = (out, r', s')" and r: "rounds s rid = Some r"
  shows "rounds s' = (rounds s)(rid \<mapsto> r')"
    and "status r' = status r" and "winner r' = winner r"
    and "tierIndex (currentTier r) \<le> tierIndex (currentTier r')"
    and "signer s' = signer s"
    and "nonceCounter s \<le> nonceCounter s'"
    and "out = Inl err \<Longrightarrow> err = SignerNotInitialized"
proof -
  have upd: "(rounds s)(rid \<mapsto> r) = rounds s" using r by (rule map_upd_triv)
  show "rounds s' = (rounds s)(rid \<mapsto> r')"
    using e upd
    by (auto simp: escalatePrice_def computeBuyIn_default Let_def case_prod_unfold
          addAuditEntry_frame getNextNonce_frame split: if_splits sum.splits)
  show "status r' = status r"
    using e
    by (auto simp: escalatePrice_def computeBuyIn_default Let_def case_prod_unfold
          split: if_splits sum.splits)
  show "winner r' = winner r"
    using e
    by (auto simp: escalatePrice_def computeBuyIn_default Let_def case_prod_unfold
          split: if_splits sum.splits)
  show "tierIndex (currentTier r) \<le> tierIndex (currentTier r')"
    using e
    by (auto simp: escalatePrice_def computeBuyIn_default Let_def case_prod_unfold
          shouldUpdatePrice_def split: if_splits sum.splits)
  show "signer s' = signer s"
    using e
    by (auto simp: escalatePrice_def computeBuyIn_default Let_def case_prod_unfold
          addAuditEntry_frame getNextNonce_frame split: if_splits sum.splits)
  show "nonceCounter s \<le> nonceCounter s'"
    using e jsIncrement_ge [of "nonceCounter s"]
    by (auto simp: escalatePrice_def computeBuyIn_default Let_def case_prod_unfold
          addAuditEntry_frame getNextNonce_frame split: if_splits sum.splits)
  show "out = Inl err \<Longrightarrow> err = SignerNotInitialized"
    using e
    by (auto simp: escalatePrice_def computeBuyIn_default Let_def case_prod_unfold
          signPriceUpdate_def getSigner_def split: if_splits sum.splits option.splits)
qed

lemma declareWinner_effect:
  assumes e: "declareWinner L clk rid plr h r s = (out, r', s')" and r: "rounds s rid = Some r"
  shows "rounds s' = (rounds s)(rid \<mapsto> r')"
    and "isExactMatch h \<Longrightarrow> status r' = Completed \<and> winner r' = Some plr"
    and "\<not> isExactMatch h \<Longrightarrow> r' = r \<and> s' = s"
    and "currentTier r' = currentTier r" and "currentBuyIn r' = currentBuyIn r"
    and "signer s' = signer s"
    and "nonceCounter s \<le> nonceCounter s'"
    and "out = Inl err \<Longrightarrow> err = SignerNotInitialized"
proof -
  have upd: "(rounds s)(rid \<mapsto> r) = rounds s" using r by (rule map_upd_triv)
  show "rounds s' = (rounds s)(rid \<mapsto> r')"
    using e upd
    by (auto simp: declareWinner_def Let_def case_prod_unfold
          addAuditEntry_frame getNextNonce_frame split: if_splits sum.splits)
  show "isExactMatch h \<Longrightarrow> status r' = Completed \<and> winner r' = Some plr"
    using e by (auto simp: declareWinner_def Let_def case_prod_unfold split: if_splits sum.splits)
  show "\<not> isExactMatch h \<Longrightarrow> r' = r \<and> s' = s"
    using e by (auto simp: declareWinner_def)
  show "currentTier r' = currentTier r"
    using e by (auto simp: declareWinner_def Let_def case_prod_unfold split: if_splits sum.splits)
  show "currentBuyIn r' = currentBuyIn r"
    using e by (auto simp: declareWinner_def Let_def case_prod_unfold split: if_splits sum.splits)
  show "signer s' = signer s"
    using e
    by (auto simp: declareWinner_def Let_def case_prod_unfold
          addAuditEntry_frame getNextNonce_frame split: if_splits sum.splits)
  show "nonceCounter s \<le> nonceCounter s'"
    using e jsIncrement_ge [of "nonceCounter s"]
    by (auto simp: declareWinner_def Let_def case_prod_unfold
          addAuditEntry_frame getNextNonce_frame split: if_splits sum.splits)
  show "out = Inl err \<Longrightarrow> err = SignerNotInitialized"
    using e
    by (auto simp: declareWinner_def Let_def case_prod_unfold
          signWinner_def getSigner_def split: if_splits sum.splits option.splits)
qed


lemma processGuess_effect:
  assumes r: "rounds s rid = Some r"
  shows "\<exists>r'. rounds (snd (processGuess L clk rid plr gs paid s)) = (rounds s)(rid \<mapsto> r')
           \<and> (roundOk r \<longrightarrow> roundOk r')
           \<and> tierIndex (currentTier r) \<le> tierIndex (currentTier r')
           \<and> (status r \<noteq> Active \<longrightarrow> r' = r)"
proof -
  have same: "(rounds s)(rid \<mapsto> r) = rounds s" using r by (rule map_upd_triv)
  let ?pg = "processGuess L clk rid plr gs paid s"
  have unchanged: "snd ?pg = s \<Longrightarrow> ?thesis"
    using same by (intro exI [of _ r]) simp
  show ?thesis
  proof (cases "status r \<noteq> Active \<or> paid < currentBuyIn r")
    case True
    then have "snd ?pg = s" using r by (auto simp: processGuess_def)
    then show ?thesis by (rule unchanged)
  next
    case False
    then have act: "status r = Active" and paid: "\<not> paid < currentBuyIn r" by auto
    show ?thesis
    proof (cases "calculateDistance (target r) gs DEFAULT_PRICING_CONFIG")
      case (Inl e)
      then have "snd ?pg = s" using r act paid by (simp add: processGuess_def)
      then show ?thesis by (rule unchanged)
    next
      case (Inr h)
      obtain r1 s3 where rg: "recordGuess L clk rid plr gs paid h r s = (r1, s3)"
        by (cases "recordGuess L clk rid plr gs paid h r s") auto
      note rge = recordGuess_effect [OF rg]
      define s4 where "s4 = snd (getNextNonce s3)"
      have gn: "getNextNonce s3 = (nonceCounter s3, s4)"
        by (simp add: s4_def getNextNonce_def)
      have r4: "rounds s4 = (rounds s)(rid \<mapsto> r1)"
        by (simp add: s4_def getNextNonce_frame rge(1))
      then have r4': "rounds s4 rid = Some r1" by simp
      have ok1: "roundOk r \<longrightarrow> roundOk r1" and t1: "currentTier r1 = currentTier r"
        and st1: "status r1 = Active" and w1: "winner r1 = winner r"
        using rge(2) act by (simp_all add: roundOk_def)
      show ?thesis
      proof (cases "signHint L rid plr (digitsCorrect h) (digitsInPlace h) (numericDistance h)
                      (nonceCounter s3) s4")
        case (Inl e)
        then have "snd ?pg = s4"
          using r act paid Inr rg gn by (simp add: processGuess_def)
        with r4 ok1 t1 st1 act show ?thesis by (intro exI [of _ r1]) simp
      next
        case sig: (Inr hintSig)
        obtain out r2 s5 where ep: "escalatePrice L clk rid h r1 s4 = (out, r2, s5)"
          by (cases "escalatePrice L clk rid h r1 s4") auto
        note epe = escalatePrice_effect [OF ep r4']
        have r5: "rounds s5 = (rounds s)(rid \<mapsto> r2)" using epe(1) r4 by simp
        then have r5': "rounds s5 rid = Some r2" by simp
        have ok2: "roundOk r \<longrightarrow> roundOk r2" using ok1 epe(2,3) by (simp add: roundOk_def)
        have t2: "tierIndex (currentTier r) \<le> tierIndex (currentTier r2)" using epe(4) t1 by simp
        show ?thesis
        proof (cases out)
          case (Inl e)
          then have "snd ?pg = s5"
            using r act paid Inr rg gn sig ep by (simp add: processGuess_def)
          with r5 ok2 t2 act show ?thesis by (intro exI [of _ r2]) simp
        next
          case pu: (Inr pUpdate)
          obtain wout r3 s6 where dw: "declareWinner L clk rid plr h r2 s5 = (wout, r3, s6)"
            by (cases "declareWinner L clk rid plr h r2 s5") auto
          note dwe = declareWinner_effect [OF dw r5']
          have r6: "rounds s6 = (rounds s)(rid \<mapsto> r3)" using dwe(1) r5 by simp
          have ok3: "roundOk r \<longrightarrow> roundOk r3"
            using dwe(2,3) ok2 by (cases "isExactMatch h") (auto simp: roundOk_def)
          have t3: "tierIndex (currentTier r) \<le> tierIndex (currentTier r3)" using dwe(4) t2 by simp
          have "snd ?pg = s6"
            using r act paid Inr rg gn sig ep pu dw
            by (cases wout) (simp_all add: processGuess_def)
          with r6 ok3 t3 act show ?thesis by (intro exI [of _ r3]) simp
        qed
      qed
    qed
  qed
qed

lemma processGuess_other_round:
  "rid' \<noteq> rid \<Longrightarrow> rounds (snd (processGuess L clk rid plr gs paid s)) rid' = rounds s rid'"
proof (cases "rounds s rid")
  case None
  then show ?thesis by (simp add: processGuess_def)
next
  case (Some r)
  assume "rid' \<noteq> rid"
  with processGuess_effect [OF Some, of L clk plr gs paid] show ?thesis by auto
qed

section \<open>The guards of a guess\<close>

lemma processGuess_late_error:
  assumes r: "rounds s rid = Some r" and act: "status r = Active"
    and paid: "\<not> paid < currentBuyIn r"
    and h: "calculateDistance (target r) gs DEFAULT_PRICING_CONFIG = Inr h"
    and err: "fst (processGuess L clk rid plr gs paid s) = Inl e"
  shows "e = SignerNotInitialized"
proof -
  obtain r1 s3 where rg: "recordGuess L clk rid plr gs paid h r s = (r1, s3)"
    by (cases "recordGuess L clk rid plr gs paid h r s") auto
  note rge = recordGuess_effect [OF rg]
  define s4 where "s4 = snd (getNextNonce s3)"
  have gn: "getNextNonce s3 = (nonceCounter s3, s4)"
    by (simp add: s4_def getNextNonce_def)
  have r4': "rounds s4 rid = Some r1"
    by (simp add: s4_def getNextNonce_frame rge(1))
  show ?thesis
  proof (cases "signHint L rid plr (digitsCorrect h) (digitsInPlace h) (numericDistance h)
                  (nonceCounter s3) s4")
    case (Inl e')
    then have "fst (processGuess L clk rid plr gs paid s) = Inl e'"
      using r act paid h rg gn by (simp add: processGuess_def)
    moreover from Inl have "e' = SignerNotInitialized"
      by (auto simp: signHint_def getSigner_def split: option.splits)
    ultimately show ?thesis using err by simp
  next
    case sig: (Inr hintSig)
    obtain out r2 s5 where ep: "escalatePrice L clk rid h r1 s4 = (out, r2, s5)"
      by (cases "escalatePrice L clk rid h r1 s4") auto
    note epe = escalatePrice_effect [OF ep r4']
    have r5': "rounds s5 rid = Some r2" using epe(1) by simp
    show ?thesis
    proof (cases out)
      case (Inl e')
      then have "fst (processGuess L clk rid plr gs paid s) = Inl e'"
        using r act paid h rg gn sig ep by (simp add: processGuess_def)
      with epe(7) [OF Inl] err show ?thesis by simp
    next
      case pu: (Inr pUpdate)
      obtain wout r3 s6 where dw: "declareWinner L clk rid plr h r2 s5 = (wout, r3, s6)"
        by (cases "declareWinner L clk rid plr h r2 s5") auto
      note dwe = declareWinner_effect [OF dw r5']
      show ?thesis
      proof (cases wout)
        case (Inl e')
        then have "fst (processGuess L clk rid plr gs paid s) = Inl e'"
          using r act paid h rg gn sig ep pu dw by (simp add: processGuess_def)
        with dwe(8) [OF Inl] err show ?thesis by simp
      next
        case (Inr wDecl)
        then have "\<exists>res. fst (processGuess L clk rid plr gs paid s) = Inr res"
          using r act paid h rg gn sig ep pu dw by (simp add: processGuess_def)
        with err show ?thesis by auto
      qed
    qed
  qed
qed

text \<open>A failure other than the signer's happens before the guess is recorded.\<close>

lemma processGuess_early_failure_unchanged:
  assumes e: "fst (processGuess L clk rid plr gs paid s) = Inl e"
    and ne: "e \<noteq> SignerNotInitialized"
  shows "snd (processGuess L clk rid plr gs paid s) = s"
proof (cases "rounds s rid")
  case None
  then show ?thesis by (simp add: processGuess_def)
next
  case (Some r)
  show ?thesis
  proof (cases "status r \<noteq> Active \<or> paid < currentBuyIn r")
    case True
    then show ?thesis using Some by (auto simp: processGuess_def)
  next
    case False
    then have act: "status r = Active" and paid: "\<not> paid < currentBuyIn r" by auto
    show ?thesis
    proof (cases "calculateDistance (target r) gs DEFAULT_PRICING_CONFIG")
      case (Inl e)
      then show ?thesis using Some act paid by (simp add: processGuess_def)
    next
      case (Inr h)
      from processGuess_late_error [OF Some act paid Inr e] ne show ?thesis by simp
    qed
  qed
qed

lemma addAuditEntry_entriesOf:
  "entriesOf rid' (snd (addAuditEntry L now rid ty d s)) =
     (if rid' = rid then entriesOf rid s @ [fst (addAuditEntry L now rid ty d s)]
      else entriesOf rid' s)"
  by (simp add: addAuditEntry_def getOrCreateTrail_def entriesOf_def Let_def split: option.splits)

lemma addAuditEntry_entry:
  "fst (addAuditEntry L now rid ty d s) =
     \<lparr> index = length (entriesOf rid s), entry_type = ty, roundId = rid, data = stringify L d,
       entry_timestamp = now,
       previousHash = (if length (entriesOf rid s) > 0
                       then hash (entriesOf rid s ! (length (entriesOf rid s) - 1)) else ZERO_HASH),
       hash = keccak L (EntryFields (length (entriesOf rid s)) ty rid (stringify L d) now
                (if length (entriesOf rid s) > 0
                 then hash (entriesOf rid s ! (length (entriesOf rid s) - 1)) else ZERO_HASH)) \<rparr>"
  by (simp add: addAuditEntry_def getOrCreateTrail_def entriesOf_def Let_def split: option.splits)

lemma entriesOf_frame:
  "entriesOf rid (s\<lparr> rounds := rs \<rparr>) = entriesOf rid s"
  "entriesOf rid (s\<lparr> nonceCounter := n \<rparr>) = entriesOf rid s"
  "entriesOf rid (s\<lparr> signer := w \<rparr>) = entriesOf rid s"
  "entriesOf rid (s\<lparr> activeRoundId := a \<rparr>) = entriesOf rid s"
  "entriesOf rid (snd (getNextNonce s)) = entriesOf rid s"
  by (simp_all add: entriesOf_def getNextNonce_def)

lemma recordGuess_entries:
  "length (entriesOf rid (snd (recordGuess L clk rid plr gs paid h r s))) = length (entriesOf rid s) + 2"
  by (simp add: recordGuess_def Let_def addAuditEntry_entriesOf entriesOf_frame)

lemma processGuess_unsigned:
  assumes r: "rounds s rid = Some r" and act: "status r = Active"
    and paid: "\<not> paid < currentBuyIn r"
    and h: "calculateDistance (target r) gs DEFAULT_PRICING_CONFIG = Inr h"
    and sg: "signer s = None"
  shows "processGuess L clk rid plr gs paid s =
           (Inl SignerNotInitialized, snd (getNextNonce (snd (recordGuess L clk rid plr gs paid h r s))))"
proof -
  obtain r1 s3 where rg: "recordGuess L clk rid plr gs paid h r s = (r1, s3)"
    by (cases "recordGuess L clk rid plr gs paid h r s") auto
  note rge = recordGuess_effect [OF rg]
  have "signer (snd (getNextNonce s3)) = None"
    using rge(3) sg by (simp add: getNextNonce_frame)
  then have "signHint L rid plr (digitsCorrect h) (digitsInPlace h) (numericDistance h)
               (fst (getNextNonce s3)) (snd (getNextNonce s3)) = Inl SignerNotInitialized"
    by (rule sign_fail)
  then show ?thesis
    using r act paid h rg by (simp add: processGuess_def case_prod_unfold)
qed

lemma startNewRound_rounds:
  "rounds (snd (startNewRound L inp base s)) =
     (rounds s)(uuid inp \<mapsto>
        \<lparr> round_id = uuid inp, target = gen_target inp, salt = gen_salt inp,
          commitmentHash = computeCommitment L (gen_target inp) (uuid inp) (gen_salt inp),
          baseBuyIn = base, currentBuyIn = base, currentTier = Base, pool = 0, guesses = [],
          status = Active, winner = None, startTimestamp = t_start inp, endTimestamp = None \<rparr>)"
  by (simp add: startNewRound_def Let_def case_prod_unfold addAuditEntry_frame getNextNonce_frame
        split: sum.splits)

lemma startNewRound_signer:
  "signer (snd (startNewRound L inp base s)) = signer s"
  by (simp add: startNewRound_def Let_def case_prod_unfold addAuditEntry_frame getNextNonce_frame
        split: sum.splits)

lemma startNewRound_unsigned_entries:
  "signer s = None \<Longrightarrow> entriesOf rid (snd (startNewRound L inp base s)) = entriesOf rid s"
  by (simp add: startNewRound_def Let_def case_prod_unfold sign_fail getNextNonce_frame
        entriesOf_frame entriesOf_def)

lemma is12_samples:
  "is12Digits ''123456789012''" "is12Digits ''000000000000''" "is12Digits ''123456789512''"
  by (simp_all add: is12Digits_def isDigit_def digitVal_def indexOf_def)

section \<open>An accepted guess with a signer\<close>

lemma computeBuyIn_getMultiplier:
  "computeBuyIn d DEFAULT_PRICING_CONFIG =
     Inr (cfg_baseBuyIn DEFAULT_PRICING_CONFIG
            * getMultiplier (determinePriceTier d DEFAULT_PRICING_CONFIG) DEFAULT_PRICING_CONFIG)"
  by (simp add: computeBuyIn_def getMultiplier_def determinePriceTier_default)
     (simp add: DEFAULT_PRICING_CONFIG_def)

lemma escalatePrice_signed:
  assumes e: "escalatePrice L clk rid h r s = (out, r', s')" and sg: "signer s = Some w"
  shows "r' = (if shouldUpdatePrice (currentTier r) (numericDistance h) DEFAULT_PRICING_CONFIG
               then r\<lparr> currentTier := determinePriceTier (numericDistance h) DEFAULT_PRICING_CONFIG,
                      currentBuyIn := cfg_baseBuyIn DEFAULT_PRICING_CONFIG
                        * getMultiplier (determinePriceTier (numericDistance h) DEFAULT_PRICING_CONFIG)
                            DEFAULT_PRICING_CONFIG \<rparr>
               else r)"
    and "nonceCounter s' =
           (if shouldUpdatePrice (currentTier r) (numericDistance h) DEFAULT_PRICING_CONFIG
            then jsIncrement (nonceCounter s) else nonceCounter s)"
    and "\<exists>p. out = Inr p \<and> (case p of None \<Rightarrow> [] | Some u \<Rightarrow> [pu_nonce u]) =
           (if shouldUpdatePrice (currentTier r) (numericDistance h) DEFAULT_PRICING_CONFIG
            then [nonceCounter s] else [])"
  using e sg
  by (auto simp: escalatePrice_def computeBuyIn_getMultiplier Let_def case_prod_unfold sign_ok
        addAuditEntry_frame getNextNonce_frame)

lemma declareWinner_signed:
  assumes e: "declareWinner L clk rid plr h r s = (out, r', s')" and sg: "signer s = Some w"
  shows "r' = (if isExactMatch h
               then r\<lparr> status := Completed, winner := Some plr, endTimestamp := Some (t_end clk) \<rparr>
               else r)"
    and "nonceCounter s' = (if isExactMatch h then jsIncrement (nonceCounter s) else nonceCounter s)"
    and "\<exists>p. out = Inr p \<and> (case p of None \<Rightarrow> [] | Some u \<Rightarrow> [wd_nonce u]) =
           (if isExactMatch h then [nonceCounter s] else [])"
  using e sg
  by (auto simp: declareWinner_def Let_def case_prod_unfold sign_ok
        addAuditEntry_frame getNextNonce_frame)

text \<open>The round that a signed, accepted guess leaves behind.\<close>

lemma processGuess_signed:
  assumes r: "rounds s rid = Some r" and act: "status r = Active"
    and paid: "\<not> paid < currentBuyIn r"
    and h: "calculateDistance (target r) gs DEFAULT_PRICING_CONFIG = Inr h"
    and sg: "signer s = Some w"
  shows "\<exists>res s' r'. processGuess L clk rid plr gs paid s = (Inr res, s')
           \<and> rounds s' = (rounds s)(rid \<mapsto> r')
           \<and> res_hint res = h
           \<and> currentTier r' =
                (if shouldUpdatePrice (currentTier r) (numericDistance h) DEFAULT_PRICING_CONFIG
                 then determinePriceTier (numericDistance h) DEFAULT_PRICING_CONFIG
                 else currentTier r)
           \<and> currentBuyIn r' =
                (if shouldUpdatePrice (currentTier r) (numericDistance h) DEFAULT_PRICING_CONFIG
                 then cfg_baseBuyIn DEFAULT_PRICING_CONFIG
                        * getMultiplier (determinePriceTier (numericDistance h) DEFAULT_PRICING_CONFIG)
                            DEFAULT_PRICING_CONFIG
                 else currentBuyIn r)
           \<and> baseBuyIn r' = baseBuyIn r \<and> target r' = target r
           \<and> pool r' = pool r + paid
           \<and> status r' = (if isExactMatch h then Completed else Active)
           \<and> winner r' = (if isExactMatch h then Some plr else winner r)
           \<and> guessNonces res =
                map (\<lambda>i. (jsIncrement ^^ i) (nonceCounter s)) [0..<length (guessNonces res)]
           \<and> nonceCounter s' = (jsIncrement ^^ length (guessNonces res)) (nonceCounter s)
           \<and> signer s' = signer s
           \<and> length (guessNonces res) =
                1 + (if shouldUpdatePrice (currentTier r) (numericDistance h) DEFAULT_PRICING_CONFIG
                     then 1 else 0)
                  + (if isExactMatch h then 1 else 0)"
proof -
  let ?su = "shouldUpdatePrice (currentTier r) (numericDistance h) DEFAULT_PRICING_CONFIG"
  obtain r1 s3 where rg: "recordGuess L clk rid plr gs paid h r s = (r1, s3)"
    by (cases "recordGuess L clk rid plr gs paid h r s") auto
  note rge = recordGuess_effect [OF rg]
  define s4 where "s4 = snd (getNextNonce s3)"
  have gn: "getNextNonce s3 = (nonceCounter s, s4)"
    by (simp add: s4_def getNextNonce_def rge(4))
  have r4: "rounds s4 = (rounds s)(rid \<mapsto> r1)"
    by (simp add: s4_def getNextNonce_frame rge(1))
  then have r4': "rounds s4 rid = Some r1" by simp
  have sg4: "signer s4 = Some w" by (simp add: s4_def getNextNonce_frame rge(3) sg)
  have n4: "nonceCounter s4 = jsIncrement (nonceCounter s)"
    by (simp add: s4_def getNextNonce_frame rge(4))
  have sig: "signHint L rid plr (digitsCorrect h) (digitsInPlace h) (numericDistance h)
               (nonceCounter s) s4
             = Inr (signMessage L w (HintMsg rid plr (digitsCorrect h) (digitsInPlace h)
                      (numericDistance h) (nonceCounter s)))"
    using sg4 by (rule sign_ok)
  obtain out r2 s5 where ep: "escalatePrice L clk rid h r1 s4 = (out, r2, s5)"
    by (cases "escalatePrice L clk rid h r1 s4") auto
  note epe = escalatePrice_effect [OF ep r4']
  have t1: "currentTier r1 = currentTier r" using rge(2) by simp
  note eps = escalatePrice_signed [OF ep sg4, unfolded t1]
  have r5: "rounds s5 = (rounds s)(rid \<mapsto> r2)" using epe(1) r4 by simp
  then have r5': "rounds s5 rid = Some r2" by simp
  have sg5: "signer s5 = Some w" using epe(5) sg4 by simp
  from eps(3) obtain pUpdate where pu: "out = Inr pUpdate"
    and pun: "(case pUpdate of None \<Rightarrow> [] | Some p \<Rightarrow> [pu_nonce p])
               = (if ?su then [nonceCounter s4] else [])" by blast
  obtain wout r3 s6 where dw: "declareWinner L clk rid plr h r2 s5 = (wout, r3, s6)"
    by (cases "declareWinner L clk rid plr h r2 s5") auto
  note dwe = declareWinner_effect [OF dw r5']
  note dws = declareWinner_signed [OF dw sg5]
  from dws(3) obtain wDecl where wd: "wout = Inr wDecl"
    and wdn: "(case wDecl of None \<Rightarrow> [] | Some p \<Rightarrow> [wd_nonce p])
               = (if isExactMatch h then [nonceCounter s5] else [])" by blast
  let ?res = "\<lparr> res_hint = h,
                 signedHint = \<lparr> sh_roundId = rid, sh_player = plr,
                                sh_digitsCorrect = digitsCorrect h,
                                sh_digitsInPlace = digitsInPlace h,
                                sh_numericDistance = numericDistance h,
                                sh_nonce = nonceCounter s,
                                sh_signature = signMessage L w (HintMsg rid plr (digitsCorrect h)
                                   (digitsInPlace h) (numericDistance h) (nonceCounter s)) \<rparr>,
                 priceUpdate = pUpdate, winnerDeclaration = wDecl \<rparr>"
  have pg: "processGuess L clk rid plr gs paid s = (Inr ?res, s6)"
    using r act paid h rg gn sig ep pu dw wd by (simp add: processGuess_def)
  have r6: "rounds s6 = (rounds s)(rid \<mapsto> r3)" using dwe(1) r5 by simp
  have fields2: "currentTier r2 = (if ?su then determinePriceTier (numericDistance h) DEFAULT_PRICING_CONFIG
                   else currentTier r)"
    "currentBuyIn r2 = (if ?su then cfg_baseBuyIn DEFAULT_PRICING_CONFIG
                        * getMultiplier (determinePriceTier (numericDistance h) DEFAULT_PRICING_CONFIG)
                            DEFAULT_PRICING_CONFIG else currentBuyIn r)"
    "baseBuyIn r2 = baseBuyIn r" "target r2 = target r" "pool r2 = pool r + paid"
    "status r2 = Active" "winner r2 = winner r"
    unfolding eps(1) rge(2) using act by simp_all
  have fields3: "currentTier r3 = currentTier r2" "currentBuyIn r3 = currentBuyIn r2"
    "baseBuyIn r3 = baseBuyIn r2" "target r3 = target r2" "pool r3 = pool r2"
    "status r3 = (if isExactMatch h then Completed else status r2)"
    "winner r3 = (if isExactMatch h then Some plr else winner r2)"
    unfolding dws(1) by simp_all
  have n5: "nonceCounter s5 = (if ?su then jsIncrement (jsIncrement (nonceCounter s))
                               else jsIncrement (nonceCounter s))"
    unfolding eps(2) n4 by simp
  have n6: "nonceCounter s6 = (if isExactMatch h then jsIncrement (nonceCounter s5)
                               else nonceCounter s5)"
    by (rule dws(2))
  have gnv: "guessNonces ?res = nonceCounter s
               # (if ?su then [jsIncrement (nonceCounter s)] else [])
               @ (if isExactMatch h then [nonceCounter s5] else [])"
    by (simp add: guessNonces_def pun wdn n4)
  have nonces: "guessNonces ?res =
       map (\<lambda>i. (jsIncrement ^^ i) (nonceCounter s)) [0..<length (guessNonces ?res)]"
    unfolding gnv n5 by (cases ?su; cases "isExactMatch h") (simp_all add: upt_rec)
  have final: "nonceCounter s6 = (jsIncrement ^^ length (guessNonces ?res)) (nonceCounter s)"
    unfolding gnv n6 n5 by (cases ?su; cases "isExactMatch h") simp_all
  have sg6: "signer s6 = signer s" using dwe(6) sg5 sg by simp
  have len: "length (guessNonces ?res) = 1 + (if ?su then 1 else 0) + (if isExactMatch h then 1 else 0)"
    unfolding gnv by simp
  show ?thesis
    apply (rule exI [of _ ?res], rule exI [of _ s6], rule exI [of _ r3])
    using pg r6 fields2 fields3 nonces final sg6 len by simp
qed

section \<open>Escalation on a round with its own base buy-in\<close>

lemma sampleSigned_round:
  "rounds (sampleSigned base) ''r1'' =
     Some \<lparr> round_id = ''r1'', target = ''123456789012'', salt = ''0xab'',
            commitmentHash = computeCommitment sampleLib ''123456789012'' ''r1'' ''0xab'',
            baseBuyIn = base, currentBuyIn = base, currentTier = Base, pool = 0, guesses = [],
            status = Active, winner = None, startTimestamp = 1000, endTimestamp = None \<rparr>"
  by (simp add: sampleSigned_def startNewRound_rounds sampleStart_def)

lemma sampleSigned_signer: "signer (sampleSigned base) = Some (FromPrivateKey ''k'')"
  by (simp add: sampleSigned_def startNewRound_signer initSigner_def)

lemma distance_500:
  "\<exists>h. calculateDistance ''123456789012'' ''123456789512'' DEFAULT_PRICING_CONFIG = Inr h
       \<and> numericDistance h = 500"
proof -
  have "\<bar>decimalValue ''123456789012'' - decimalValue ''123456789512''\<bar> = 500"
    by (simp add: decimalValue_def digitVal_def indexOf_def)
  then show ?thesis
    unfolding calculateDistance_12 [OF is12_samples(1) is12_samples(3)] by simp
qed

lemma escalation_at_500:
  "shouldUpdatePrice Base 500 DEFAULT_PRICING_CONFIG"
  "determinePriceTier 500 DEFAULT_PRICING_CONFIG = Warm"
  "getMultiplier Warm DEFAULT_PRICING_CONFIG = 2"
  "cfg_baseBuyIn DEFAULT_PRICING_CONFIG = 10000000000000000"
proof -
  show "determinePriceTier 500 DEFAULT_PRICING_CONFIG = Warm"
    by (simp add: determinePriceTier_default)
  then show "shouldUpdatePrice Base 500 DEFAULT_PRICING_CONFIG"
    by (simp add: shouldUpdatePrice_def tierIndex_values)
  show "getMultiplier Warm DEFAULT_PRICING_CONFIG = 2"
    by (simp add: getMultiplier_def DEFAULT_PRICING_CONFIG_def)
  show "cfg_baseBuyIn DEFAULT_PRICING_CONFIG = 10000000000000000"
    by (simp add: DEFAULT_PRICING_CONFIG_def)
qed

lemma sample_guess_500:
  assumes "\<not> paid < base"
  shows "\<exists>r'. rounds (snd (processGuess sampleLib sampleClock ''r1'' ''0xp'' ''123456789512'' paid
                       (sampleSigned base))) ''r1'' = Some r'
           \<and> baseBuyIn r' = base \<and> currentTier r' = Warm
           \<and> currentBuyIn r' = 20000000000000000"
proof -
  let ?r = "\<lparr> round_id = ''r1'', target = ''123456789012'', salt = ''0xab'',
            commitmentHash = computeCommitment sampleLib ''123456789012'' ''r1'' ''0xab'',
            baseBuyIn = base, currentBuyIn = base, currentTier = Base, pool = 0, guesses = [],
            status = Active, winner = None, startTimestamp = 1000, endTimestamp = None \<rparr>"
  from distance_500 obtain h
    where h: "calculateDistance (target ?r) ''123456789512'' DEFAULT_PRICING_CONFIG = Inr h"
      and d: "numericDistance h = 500" by auto
  have act: "status ?r = Active" and paid: "\<not> paid < currentBuyIn ?r"
    using assms by simp_all
  from processGuess_signed [OF sampleSigned_round act paid h sampleSigned_signer,
      of sampleLib sampleClock "''0xp''"]
  obtain res s' r' where
    pg: "processGuess sampleLib sampleClock ''r1'' ''0xp'' ''123456789512'' paid (sampleSigned base)
           = (Inr res, s')"
    and rs: "rounds s' = (rounds (sampleSigned base))(''r1'' \<mapsto> r')"
    and tr: "currentTier r' = (if shouldUpdatePrice (currentTier ?r) (numericDistance h)
                                   DEFAULT_PRICING_CONFIG
                 then determinePriceTier (numericDistance h) DEFAULT_PRICING_CONFIG
                 else currentTier ?r)"
    and bi: "currentBuyIn r' = (if shouldUpdatePrice (currentTier ?r) (numericDistance h)
                                   DEFAULT_PRICING_CONFIG
                 then cfg_baseBuyIn DEFAULT_PRICING_CONFIG
                        * getMultiplier (determinePriceTier (numericDistance h) DEFAULT_PRICING_CONFIG)
                            DEFAULT_PRICING_CONFIG
                 else currentBuyIn ?r)"
    and bb: "baseBuyIn r' = baseBuyIn ?r"
    by blast
  have "currentTier r' = Warm" "currentBuyIn r' = 20000000000000000" "baseBuyIn r' = base"
    using tr bi bb by (simp_all add: d escalation_at_500)
  with pg rs show ?thesis by simp
qed

text \<open>
  Claim C1 (the code departs from it). A round started with \<open>baseBuyIn = 5\<close> receives a
  guess at distance \<open>500\<close>, which escalates it to \<open>Warm\<close> (multiplier \<open>2\<close>). The claim asks
  for a new buy-in of \<open>5 * 2 = 10\<close>; the code sets \<open>20000000000000000\<close>, the default
  configuration's base times \<open>2\<close>.
\<close>

theorem escalation_ignores_round_base:
  "map_option (\<lambda>r. (baseBuyIn r, currentTier r, currentBuyIn r,
                     baseBuyIn r * getMultiplier (currentTier r) DEFAULT_PRICING_CONFIG))
     (rounds (snd (processGuess sampleLib sampleClock ''r1'' ''0xp'' ''123456789512'' 5
                     (sampleSigned 5))) ''r1'')
   = Some (5, Warm, 20000000000000000, 10)"
proof -
  from sample_guess_500 [of 5 5] obtain r' where
    "rounds (snd (processGuess sampleLib sampleClock ''r1'' ''0xp'' ''123456789512'' 5
                       (sampleSigned 5))) ''r1'' = Some r'"
    "baseBuyIn r' = 5" "currentTier r' = Warm" "currentBuyIn r' = 20000000000000000"
    by auto
  then show ?thesis by (simp add: escalation_at_500)
qed

text \<open>
  Claim C2 (the code departs from it). A round started with \<open>baseBuyIn = 10 ^ 17\<close> has
  \<open>currentBuyIn = 10 ^ 17\<close>; a guess at distance \<open>500\<close> raises its tier from \<open>Base\<close> to
  \<open>Warm\<close> and lowers its \<open>currentBuyIn\<close> to \<open>2 * 10 ^ 16\<close>.
\<close>

theorem escalation_lowers_buy_in:
  "map_option (\<lambda>r. (currentTier r, currentBuyIn r)) (rounds (sampleSigned 100000000000000000) ''r1'')
     = Some (Base, 100000000000000000)
   \<and> map_option (\<lambda>r. (currentTier r, currentBuyIn r))
       (rounds (snd (processGuess sampleLib sampleClock ''r1'' ''0xp'' ''123456789512''
                       100000000000000000 (sampleSigned 100000000000000000))) ''r1'')
     = Some (Warm, 20000000000000000)"
proof -
  from sample_guess_500 [of 100000000000000000 100000000000000000] obtain r' where
    "rounds (snd (processGuess sampleLib sampleClock ''r1'' ''0xp'' ''123456789512''
                       100000000000000000 (sampleSigned 100000000000000000))) ''r1'' = Some r'"
    "currentTier r' = Warm" "currentBuyIn r' = 20000000000000000"
    by auto
  then show ?thesis by (simp add: sampleSigned_round)
qed

section \<open>Sequences of operations and the life of a round\<close>

lemma getOrCreateTrail_frame:
  "rounds (snd (getOrCreateTrail rid s)) = rounds s"
  "signer (snd (getOrCreateTrail rid s)) = signer s"
  "nonceCounter (snd (getOrCreateTrail rid s)) = nonceCounter s"
  by (simp_all add: getOrCreateTrail_def Let_def split: option.splits)

lemma computeMerkleRoot_frame:
  "rounds (snd (computeMerkleRoot L rid s)) = rounds s"
  "signer (snd (computeMerkleRoot L rid s)) = signer s"
  "nonceCounter (snd (computeMerkleRoot L rid s)) = nonceCounter s"
  by (simp_all add: computeMerkleRoot_def getOrCreateTrail_def Let_def split: option.splits)

lemma getSignedAuditRoot_frame:
  "rounds (snd (getSignedAuditRoot L rid s)) = rounds s"
  "signer (snd (getSignedAuditRoot L rid s)) = signer s"
  "nonceCounter (snd (getSignedAuditRoot L rid s)) = jsIncrement (nonceCounter s)"
  by (simp_all add: getSignedAuditRoot_def case_prod_unfold Let_def computeMerkleRoot_frame
        getOrCreateTrail_frame getNextNonce_frame split: sum.splits)

text \<open>What one operation can do to the round stored under \<open>rid\<close>.\<close>

lemma step_round:
  "rounds (step L op s) rid = rounds s rid
   \<or> (\<exists>inp base. op = OpStartNewRound inp base \<and> rid = uuid inp
         \<and> (\<exists>r'. rounds (step L op s) rid = Some r' \<and> status r' = Active \<and> winner r' = None
                \<and> currentTier r' = Base))
   \<or> (\<exists>r r'. rounds s rid = Some r \<and> rounds (step L op s) rid = Some r'
         \<and> (roundOk r \<longrightarrow> roundOk r')
         \<and> tierIndex (currentTier r) \<le> tierIndex (currentTier r')
         \<and> (status r \<noteq> Active \<longrightarrow> r' = r))"
proof (cases op)
  case (OpInitSigner k)
  then show ?thesis by (simp add: initSigner_def)
next
  case (OpInitSignerFromMnemonic m)
  then show ?thesis by (simp add: initSignerFromMnemonic_def)
next
  case (OpStartNewRound inp base)
  then show ?thesis by (cases "rid = uuid inp") (simp_all add: startNewRound_rounds)
next
  case (OpProcessGuess clk rid' plr gs paid)
  show ?thesis
  proof (cases "rid = rid'")
    case False
    then show ?thesis using OpProcessGuess by (simp add: processGuess_other_round)
  next
    case True
    show ?thesis
    proof (cases "rounds s rid")
      case None
      then show ?thesis using OpProcessGuess True by (simp add: processGuess_def)
    next
      case (Some r)
      from processGuess_effect [OF Some, of L clk plr gs paid] Some
      show ?thesis using OpProcessGuess True by auto
    qed
  qed
next
  case (OpGetAuditTrail x)
  then show ?thesis by (simp add: getAuditTrail_def getOrCreateTrail_frame)
next
  case (OpComputeMerkleRoot x)
  then show ?thesis by (simp add: computeMerkleRoot_frame)
next
  case (OpGetSignedAuditRoot x)
  then show ?thesis by (simp add: getSignedAuditRoot_frame)
qed

lemma run_Nil: "run L [] s = s"
  by (simp add: run_def)

lemma run_Cons: "run L (op # ops) s = run L ops (step L op s)"
  by (simp add: run_def)

lemma run_append: "run L (xs @ ys) s = run L ys (run L xs s)"
  by (simp add: run_def)

lemma freshIds_Cons:
  "freshIds L (op # ops) s \<Longrightarrow> freshIds L ops (step L op s)"
  by (cases op) simp_all

lemma freshIds_head:
  "freshIds L (OpStartNewRound inp base # ops) s \<Longrightarrow> rounds s (uuid inp) = None"
  by simp

lemma freshIds_append:
  "freshIds L (xs @ ys) s \<Longrightarrow> freshIds L ys (run L xs s)"
proof (induction xs arbitrary: s)
  case Nil
  then show ?case by (simp add: run_Nil)
next
  case (Cons op xs)
  from Cons.prems have "freshIds L (xs @ ys) (step L op s)"
    using freshIds_Cons [of L op "xs @ ys" s] by simp
  from Cons.IH [OF this] show ?case by (simp add: run_Cons)
qed

lemma step_roundOk:
  assumes "\<forall>rid r. rounds s rid = Some r \<longrightarrow> roundOk r"
  shows "\<forall>rid r. rounds (step L op s) rid = Some r \<longrightarrow> roundOk r"
proof (intro allI impI)
  fix rid r' assume r': "rounds (step L op s) rid = Some r'"
  from step_round [of L op s rid]
  consider "rounds (step L op s) rid = rounds s rid"
    | r1 where "rounds (step L op s) rid = Some r1" "status r1 = Active" "winner r1 = None"
    | r0 r1 where "rounds s rid = Some r0" "rounds (step L op s) rid = Some r1"
        "roundOk r0 \<longrightarrow> roundOk r1"
    by blast
  then show "roundOk r'"
  proof cases
    case 1
    with assms r' show ?thesis by simp
  next
    case 2
    with r' show ?thesis by (simp add: roundOk_def)
  next
    case 3
    with assms r' show ?thesis by simp
  qed
qed

lemma run_roundOk:
  "\<forall>rid r. rounds s rid = Some r \<longrightarrow> roundOk r \<Longrightarrow>
     \<forall>rid r. rounds (run L ops s) rid = Some r \<longrightarrow> roundOk r"
proof (induction ops arbitrary: s)
  case Nil
  then show ?case by (simp add: run_Nil)
next
  case (Cons op ops)
  from Cons.IH [OF step_roundOk [OF Cons.prems, of L op]] show ?case
    by (simp add: run_Cons)
qed

lemma step_completed_frozen:
  assumes r: "rounds s rid = Some r" and c: "status r = Completed"
    and f: "freshIds L (op # ops) s"
  shows "rounds (step L op s) rid = Some r"
proof -
  from step_round [of L op s rid]
  consider "rounds (step L op s) rid = rounds s rid"
    | inp base where "op = OpStartNewRound inp base" "rid = uuid inp"
    | r0 r' where "rounds s rid = Some r0" "rounds (step L op s) rid = Some r'"
        "status r0 \<noteq> Active \<longrightarrow> r' = r0"
    by blast
  then show ?thesis
  proof cases
    case 1
    with r show ?thesis by simp
  next
    case 2
    with f have "rounds s rid = None" by simp
    with r show ?thesis by simp
  next
    case 3
    with r c show ?thesis by simp
  qed
qed

lemma run_completed_frozen:
  "rounds s rid = Some r \<Longrightarrow> status r = Completed \<Longrightarrow> freshIds L ops s \<Longrightarrow>
     rounds (run L ops s) rid = Some r"
proof (induction ops arbitrary: s)
  case Nil
  then show ?case by (simp add: run_Nil)
next
  case (Cons op ops)
  from step_completed_frozen [OF Cons.prems(1,2,3)]
  have "rounds (step L op s) rid = Some r" .
  from Cons.IH [OF this Cons.prems(2) freshIds_Cons [OF Cons.prems(3)]]
  show ?case by (simp add: run_Cons)
qed

lemma step_tier_monotone:
  assumes r: "rounds s rid = Some r" and f: "freshIds L (op # ops) s"
  shows "\<exists>r'. rounds (step L op s) rid = Some r'
           \<and> tierIndex (currentTier r) \<le> tierIndex (currentTier r')"
proof -
  from step_round [of L op s rid]
  consider "rounds (step L op s) rid = rounds s rid"
    | inp base where "op = OpStartNewRound inp base" "rid = uuid inp"
    | r0 r' where "rounds s rid = Some r0" "rounds (step L op s) rid = Some r'"
        "tierIndex (currentTier r0) \<le> tierIndex (currentTier r')"
    by blast
  then show ?thesis
  proof cases
    case 1
    with r show ?thesis by simp
  next
    case 2
    with f have "rounds s rid = None" by simp
    with r show ?thesis by simp
  next
    case 3
    with r show ?thesis by simp
  qed
qed

text \<open>The tier half of claim C2 holds: along any sequence of operations the severity rank
  of a round's tier never goes down.\<close>

lemma run_tier_monotone:
  "rounds s rid = Some r \<Longrightarrow> freshIds L ops s \<Longrightarrow>
     \<exists>r'. rounds (run L ops s) rid = Some r'
        \<and> tierIndex (currentTier r) \<le> tierIndex (currentTier r')"
proof (induction ops arbitrary: s r)
  case Nil
  then show ?case by (simp add: run_Nil)
next
  case (Cons op ops)
  from step_tier_monotone [OF Cons.prems] obtain r1 where
    r1: "rounds (step L op s) rid = Some r1"
    and le: "tierIndex (currentTier r) \<le> tierIndex (currentTier r1)" by blast
  from Cons.IH [OF r1 freshIds_Cons [OF Cons.prems(2)]] obtain r' where
    "rounds (run L ops (step L op s)) rid = Some r'"
    "tierIndex (currentTier r1) \<le> tierIndex (currentTier r')" by blast
  with le show ?case by (auto simp: run_Cons)
qed

text \<open>
  Claim C6. Along every sequence of operations from the initial engine (with
  \<^verbatim>\<open>randomUUID\<close> returning unused identifiers): every round has its winner set exactly when
  its status is \<open>Completed\<close>; a round that is \<open>Completed\<close> after a prefix of the sequence is
  the very same record after the whole sequence, so it is completed at most once; and every
  further guess against a completed round fails with \<open>RoundNotActive\<close> and leaves the engine
  as it was.
\<close>

theorem round_completes_once:
  assumes "freshIds L ops initEngine"
  shows "(\<forall>rid r. rounds (run L ops initEngine) rid = Some r \<longrightarrow>
            (winner r \<noteq> None \<longleftrightarrow> status r = Completed))
       \<and> (\<forall>n rid r. rounds (run L (take n ops) initEngine) rid = Some r \<and> status r = Completed \<longrightarrow>
            rounds (run L ops initEngine) rid = Some r)
       \<and> (\<forall>rid r clk plr gs paid.
            rounds (run L ops initEngine) rid = Some r \<and> status r = Completed \<longrightarrow>
            processGuess L clk rid plr gs paid (run L ops initEngine)
              = (Inl RoundNotActive, run L ops initEngine))"
proof (intro conjI allI impI)
  fix rid r assume "rounds (run L ops initEngine) rid = Some r"
  moreover have "\<forall>rid r. rounds initEngine rid = Some r \<longrightarrow> roundOk r"
    by (simp add: initEngine_def)
  ultimately have "roundOk r" using run_roundOk by blast
  then show "winner r \<noteq> None \<longleftrightarrow> status r = Completed" by (simp add: roundOk_def)
next
  fix n rid r
  assume a: "rounds (run L (take n ops) initEngine) rid = Some r \<and> status r = Completed"
  have "freshIds L (take n ops @ drop n ops) initEngine" using assms by simp
  then have "freshIds L (drop n ops) (run L (take n ops) initEngine)"
    by (rule freshIds_append)
  with a have "rounds (run L (drop n ops) (run L (take n ops) initEngine)) rid = Some r"
    using run_completed_frozen by blast
  then show "rounds (run L ops initEngine) rid = Some r"
    using run_append [of L "take n ops" "drop n ops" initEngine] by simp
next
  fix rid r clk plr gs paid
  assume "rounds (run L ops initEngine) rid = Some r \<and> status r = Completed"
  then show "processGuess L clk rid plr gs paid (run L ops initEngine)
              = (Inl RoundNotActive, run L ops initEngine)"
    by (simp add: processGuess_def)
qed

lemma sampleWon_run:
  "run sampleLib sampleWinOps initEngine =
     snd (processGuess sampleLib sampleClock ''r1'' ''0xp'' ''123456789012'' 10000000000000000
            (sampleSigned 10000000000000000))"
  by (simp add: run_def sampleWinOps_def sampleSigned_def)

lemma sampleWon_round:
  "\<exists>r. rounds (run sampleLib sampleWinOps initEngine) ''r1'' = Some r
       \<and> status r = Completed \<and> winner r = Some ''0xp''"
proof -
  let ?r = "\<lparr> round_id = ''r1'', target = ''123456789012'', salt = ''0xab'',
            commitmentHash = computeCommitment sampleLib ''123456789012'' ''r1'' ''0xab'',
            baseBuyIn = 10000000000000000, currentBuyIn = 10000000000000000,
            currentTier = Base, pool = 0, guesses = [],
            status = Active, winner = None, startTimestamp = 1000, endTimestamp = None \<rparr>"
  have "bullCount ''123456789012'' ''123456789012'' = 12"
    using bullCount_full [of "''123456789012''" "''123456789012''"] by simp
  then obtain h
    where h: "calculateDistance (target ?r) ''123456789012'' DEFAULT_PRICING_CONFIG = Inr h"
      and m: "isExactMatch h"
    using calculateDistance_12 [OF is12_samples(1) is12_samples(1), of DEFAULT_PRICING_CONFIG]
    by simp
  have act: "status ?r = Active" and paid: "\<not> 10000000000000000 < currentBuyIn ?r"
    by simp_all
  from processGuess_signed [OF sampleSigned_round act paid h sampleSigned_signer,
      of sampleLib sampleClock "''0xp''"]
  obtain res s' r' where
    pg: "processGuess sampleLib sampleClock ''r1'' ''0xp'' ''123456789012'' 10000000000000000
           (sampleSigned 10000000000000000) = (Inr res, s')"
    and rs: "rounds s' = (rounds (sampleSigned 10000000000000000))(''r1'' \<mapsto> r')"
    and st: "status r' = (if isExactMatch h then Completed else Active)"
    and wn: "winner r' = (if isExactMatch h then Some ''0xp'' else winner ?r)"
    by blast
  from pg rs st wn m show ?thesis by (simp add: sampleWon_run)
qed

lemma sampleWinOps_fresh: "freshIds sampleLib sampleWinOps initEngine"
  by (simp add: sampleWinOps_def sampleStart_def initSigner_def initEngine_def)

lemma sampleWinOps_before:
  "map_option (\<lambda>r. (status r, winner r))
     (rounds (run sampleLib (take 2 sampleWinOps) initEngine) ''r1'') = Some (Active, None)"
proof -
  have "run sampleLib (take 2 sampleWinOps) initEngine = sampleSigned 10000000000000000"
    by (simp add: sampleWinOps_def run_def sampleSigned_def)
  then show ?thesis by (simp add: sampleSigned_round)
qed

theorem round_completes_once_witness:
  "freshIds sampleLib sampleWinOps initEngine
   \<and> map_option (\<lambda>r. (status r, winner r))
       (rounds (run sampleLib (take 2 sampleWinOps) initEngine) ''r1'') = Some (Active, None)
   \<and> map_option (\<lambda>r. (status r, winner r))
       (rounds (run sampleLib sampleWinOps initEngine) ''r1'') = Some (Completed, Some ''0xp'')
   \<and> processGuess sampleLib sampleClock ''r1'' ''0xq'' ''000000000000'' 10000000000000000
       (run sampleLib sampleWinOps initEngine)
     = (Inl RoundNotActive, run sampleLib sampleWinOps initEngine)"
proof -
  from sampleWon_round obtain r
    where r: "rounds (run sampleLib sampleWinOps initEngine) ''r1'' = Some r"
      and c: "status r = Completed" and w: "winner r = Some ''0xp''" by blast
  from round_completes_once [OF sampleWinOps_fresh] r c
  have "processGuess sampleLib sampleClock ''r1'' ''0xq'' ''000000000000'' 10000000000000000
          (run sampleLib sampleWinOps initEngine)
        = (Inl RoundNotActive, run sampleLib sampleWinOps initEngine)"
    by blast
  with sampleWinOps_fresh sampleWinOps_before r c w show ?thesis by simp
qed

section \<open>Failures of a guess\<close>

text \<open>
  Claim C5 (as amended). \<^verbatim>\<open>processGuess\<close> fails with \<open>RoundNotFound\<close> when the round id is
  unknown, with \<open>RoundNotActive\<close> when the round is not active, and with \<open>InsufficientBuyIn\<close>
  when \<open>buyInPaid < currentBuyIn\<close>; whenever it fails before the guess is recorded, that is
  with any error other than the signer's (one of these three, or the scorer's rejection of
  the guess), the whole engine state (rounds and audit trails included) is unchanged.
\<close>

theorem processGuess_guards:
  "(rounds s rid = None \<longrightarrow>
      processGuess L clk rid plr gs paid s = (Inl RoundNotFound, s))
   \<and> (\<forall>r. rounds s rid = Some r \<and> status r \<noteq> Active \<longrightarrow>
          processGuess L clk rid plr gs paid s = (Inl RoundNotActive, s))
   \<and> (\<forall>r. rounds s rid = Some r \<and> status r = Active \<and> paid < currentBuyIn r \<longrightarrow>
          processGuess L clk rid plr gs paid s = (Inl InsufficientBuyIn, s))
   \<and> (\<forall>e. fst (processGuess L clk rid plr gs paid s) = Inl e \<and> e \<noteq> SignerNotInitialized \<longrightarrow>
          snd (processGuess L clk rid plr gs paid s) = s)"
proof (intro conjI allI impI)
  assume "rounds s rid = None"
  then show "processGuess L clk rid plr gs paid s = (Inl RoundNotFound, s)"
    by (simp add: processGuess_def)
next
  fix r assume "rounds s rid = Some r \<and> status r \<noteq> Active"
  then show "processGuess L clk rid plr gs paid s = (Inl RoundNotActive, s)"
    by (simp add: processGuess_def)
next
  fix r assume "rounds s rid = Some r \<and> status r = Active \<and> paid < currentBuyIn r"
  then show "processGuess L clk rid plr gs paid s = (Inl InsufficientBuyIn, s)"
    by (simp add: processGuess_def)
next
  fix e
  assume "fst (processGuess L clk rid plr gs paid s) = Inl e \<and> e \<noteq> SignerNotInitialized"
  then show "snd (processGuess L clk rid plr gs paid s) = s"
    using processGuess_early_failure_unchanged by blast
qed

theorem processGuess_guards_witness:
  "processGuess sampleLib sampleClock ''r0'' ''0xp'' ''000000000000'' 10000000000000000 sampleUnsigned
     = (Inl RoundNotFound, sampleUnsigned)
   \<and> processGuess sampleLib sampleClock ''r1'' ''0xp'' ''000000000000'' 1 sampleUnsigned
     = (Inl InsufficientBuyIn, sampleUnsigned)
   \<and> processGuess sampleLib sampleClock ''r1'' ''0xq'' ''000000000000'' 10000000000000000
       (run sampleLib sampleWinOps initEngine)
     = (Inl RoundNotActive, run sampleLib sampleWinOps initEngine)
   \<and> fst (processGuess sampleLib sampleClock ''r1'' ''0xp'' ''123'' 10000000000000000 sampleUnsigned)
     = Inl InvalidLength
   \<and> snd (processGuess sampleLib sampleClock ''r1'' ''0xp'' ''123'' 10000000000000000 sampleUnsigned)
     = sampleUnsigned"
proof -
  have r0: "rounds sampleUnsigned ''r0'' = None"
    by (simp add: sampleUnsigned_def startNewRound_rounds sampleStart_def initEngine_def)
  obtain r where r1: "rounds sampleUnsigned ''r1'' = Some r" "status r = Active"
    "(1::int) < currentBuyIn r" "\<not> 10000000000000000 < currentBuyIn r"
    "target r = ''123456789012''"
    by (simp add: sampleUnsigned_def startNewRound_rounds sampleStart_def)
  from sampleWon_round obtain r' where
    r2: "rounds (run sampleLib sampleWinOps initEngine) ''r1'' = Some r'" "status r' \<noteq> Active"
    by auto
  have "calculateDistance ''123456789012'' ''123'' DEFAULT_PRICING_CONFIG = Inl InvalidLength"
    by (simp add: calculateDistance_def)
  with r1 have short:
    "fst (processGuess sampleLib sampleClock ''r1'' ''0xp'' ''123'' 10000000000000000 sampleUnsigned)
       = Inl InvalidLength"
    by (simp add: processGuess_def)
  from processGuess_guards [of sampleUnsigned "''r1''" sampleLib sampleClock "''0xp''"
      "''123''" 10000000000000000] short
  have same:
    "snd (processGuess sampleLib sampleClock ''r1'' ''0xp'' ''123'' 10000000000000000 sampleUnsigned)
       = sampleUnsigned"
    by blast
  from processGuess_guards [of sampleUnsigned "''r0''" sampleLib sampleClock "''0xp''"
      "''000000000000''" 10000000000000000] r0
    processGuess_guards [of sampleUnsigned "''r1''" sampleLib sampleClock "''0xp''"
      "''000000000000''" 1] r1
    processGuess_guards [of "run sampleLib sampleWinOps initEngine" "''r1''" sampleLib
      sampleClock "''0xq''" "''000000000000''" 10000000000000000] r2
    short same
  show ?thesis by blast
qed

theorem processGuess_late_failure_counterexample:
  "fst (processGuess sampleLib sampleClock ''r1'' ''0xp'' ''000000000000'' 10000000000000000
          sampleUnsigned) = Inl SignerNotInitialized
   \<and> map_option pool (rounds sampleUnsigned ''r1'') = Some 0
   \<and> map_option pool (rounds (snd (processGuess sampleLib sampleClock ''r1'' ''0xp''
          ''000000000000'' 10000000000000000 sampleUnsigned)) ''r1'') = Some 10000000000000000
   \<and> length (entriesOf ''r1'' sampleUnsigned) = 0
   \<and> length (entriesOf ''r1'' (snd (processGuess sampleLib sampleClock ''r1'' ''0xp''
          ''000000000000'' 10000000000000000 sampleUnsigned))) = 2"
proof -
  let ?r = "\<lparr> round_id = ''r1'', target = ''123456789012'', salt = ''0xab'',
          commitmentHash = computeCommitment sampleLib ''123456789012'' ''r1'' ''0xab'',
          baseBuyIn = 10000000000000000, currentBuyIn = 10000000000000000, currentTier = Base,
          pool = 0, guesses = [], status = Active, winner = None, startTimestamp = 1000,
          endTimestamp = None \<rparr>"
  have r: "rounds sampleUnsigned ''r1'' = Some ?r"
    by (simp add: sampleUnsigned_def startNewRound_rounds sampleStart_def)
  have sg: "signer sampleUnsigned = None"
    by (simp add: sampleUnsigned_def startNewRound_signer initEngine_def)
  have "signer initEngine = None" "entriesOf ''r1'' initEngine = []"
    by (simp_all add: initEngine_def entriesOf_def)
  then have e0: "entriesOf ''r1'' sampleUnsigned = []"
    unfolding sampleUnsigned_def by (simp only: startNewRound_unsigned_entries)
  obtain h where h: "calculateDistance (target ?r) ''000000000000'' DEFAULT_PRICING_CONFIG = Inr h"
    using calculateDistance_12 [OF is12_samples(1) is12_samples(2)] by simp
  have pg: "processGuess sampleLib sampleClock ''r1'' ''0xp'' ''000000000000'' 10000000000000000
          sampleUnsigned = (Inl SignerNotInitialized,
            snd (getNextNonce (snd (recordGuess sampleLib sampleClock ''r1'' ''0xp''
              ''000000000000'' 10000000000000000 h ?r sampleUnsigned))))"
    by (rule processGuess_unsigned [OF r _ _ h sg]) simp_all
  obtain r1 s3 where rg: "recordGuess sampleLib sampleClock ''r1'' ''0xp''
              ''000000000000'' 10000000000000000 h ?r sampleUnsigned = (r1, s3)"
    by (cases "recordGuess sampleLib sampleClock ''r1'' ''0xp''
              ''000000000000'' 10000000000000000 h ?r sampleUnsigned") auto
  note rge = recordGuess_effect [OF rg]
  have pool': "map_option pool (rounds (snd (getNextNonce s3)) ''r1'') = Some 10000000000000000"
    by (simp add: getNextNonce_frame rge(1)) (simp add: rge(2))
  have len: "length (entriesOf ''r1'' (snd (getNextNonce s3))) = 2"
    using recordGuess_entries [of "''r1''" sampleLib sampleClock "''0xp''" "''000000000000''"
        10000000000000000 h ?r sampleUnsigned] e0 rg
    by (simp add: entriesOf_frame)
  show ?thesis
    unfolding pg using r e0 pool' len rg by simp
qed

section \<open>Nonces\<close>

lemma jsIncrement_exact: "n < 2 ^ 53 \<Longrightarrow> jsIncrement n = n + 1"
  by (simp add: jsIncrement_def)

lemma jsIncrement_funpow: "n + i \<le> 2 ^ 53 \<Longrightarrow> (jsIncrement ^^ i) n = n + i"
proof (induction i)
  case 0
  then show ?case by simp
next
  case (Suc i)
  then have "(jsIncrement ^^ i) n = n + i" and "n + i < 2 ^ 53" by simp_all
  then show ?case by (simp add: jsIncrement_exact)
qed

lemma takeNonces_consecutive:
  "nonceCounter s + k \<le> 2 ^ 53 \<Longrightarrow>
     fst (takeNonces k s) = [nonceCounter s ..< nonceCounter s + k]
     \<and> nonceCounter (snd (takeNonces k s)) = nonceCounter s + k"
proof (induction k arbitrary: s)
  case 0
  then show ?case by simp
next
  case (Suc k)
  let ?s1 = "snd (getNextNonce s)"
  from Suc.prems have lt: "nonceCounter s < 2 ^ 53" by simp
  then have n1: "nonceCounter ?s1 = nonceCounter s + 1"
    by (simp add: getNextNonce_frame jsIncrement_exact)
  with Suc.prems have "nonceCounter ?s1 + k \<le> 2 ^ 53" by simp
  from Suc.IH [OF this] n1
  have ih: "fst (takeNonces k ?s1) = [nonceCounter s + 1 ..< nonceCounter s + 1 + k]"
    "nonceCounter (snd (takeNonces k ?s1)) = nonceCounter s + 1 + k" by simp_all
  have "takeNonces (Suc k) s =
          (nonceCounter s # fst (takeNonces k ?s1), snd (takeNonces k ?s1))"
    by (simp add: case_prod_unfold getNextNonce_frame)
  with ih show ?case by (simp add: upt_rec [of "nonceCounter s"])
qed

lemma startNewRound_nonce:
  "nonceCounter (snd (startNewRound L inp base s)) = jsIncrement (nonceCounter s)"
  by (simp add: startNewRound_def Let_def case_prod_unfold addAuditEntry_frame getNextNonce_frame
        split: sum.splits)

lemma startNewRound_message:
  assumes "startNewRound L inp base s = (Inr (r, m), s')"
  shows "ssr_nonce m = nonceCounter s"
  using assms
  by (auto simp: startNewRound_def Let_def case_prod_unfold getNextNonce_frame split: sum.splits)

lemma startNewRound_signed:
  assumes "signer s = Some w"
  shows "\<exists>r m. fst (startNewRound L inp base s) = Inr (r, m) \<and> ssr_nonce m = nonceCounter s"
  using assms
  by (simp add: startNewRound_def Let_def case_prod_unfold getNextNonce_frame sign_ok)

lemma getSignedAuditRoot_message:
  assumes "getSignedAuditRoot L rid s = (Inr m, s')"
  shows "sar_nonce m = nonceCounter s"
  using assms
  by (auto simp: getSignedAuditRoot_def Let_def case_prod_unfold getNextNonce_frame
        computeMerkleRoot_frame getOrCreateTrail_frame split: sum.splits)

lemma getSignedAuditRoot_signed:
  assumes "signer s = Some w"
  shows "\<exists>m. fst (getSignedAuditRoot L rid s) = Inr m \<and> sar_nonce m = nonceCounter s"
  using assms
  by (simp add: getSignedAuditRoot_def Let_def case_prod_unfold getNextNonce_frame
        computeMerkleRoot_frame getOrCreateTrail_frame sign_ok)

lemma processGuess_nonce_mono:
  "nonceCounter s \<le> nonceCounter (snd (processGuess L clk rid plr gs paid s))"
proof (cases "rounds s rid")
  case None
  then show ?thesis by (simp add: processGuess_def)
next
  case (Some r)
  let ?pg = "processGuess L clk rid plr gs paid s"
  show ?thesis
  proof (cases "status r \<noteq> Active \<or> paid < currentBuyIn r")
    case True
    then have "snd ?pg = s" using Some by (auto simp: processGuess_def)
    then show ?thesis by simp
  next
    case False
    then have act: "status r = Active" and paid: "\<not> paid < currentBuyIn r" by auto
    show ?thesis
    proof (cases "calculateDistance (target r) gs DEFAULT_PRICING_CONFIG")
      case (Inl e)
      then have "snd ?pg = s" using Some act paid by (simp add: processGuess_def)
      then show ?thesis by simp
    next
      case (Inr h)
      obtain r1 s3 where rg: "recordGuess L clk rid plr gs paid h r s = (r1, s3)"
        by (cases "recordGuess L clk rid plr gs paid h r s") auto
      note rge = recordGuess_effect [OF rg]
      define s4 where "s4 = snd (getNextNonce s3)"
      have gn: "getNextNonce s3 = (nonceCounter s3, s4)"
        by (simp add: s4_def getNextNonce_def)
      have r4': "rounds s4 rid = Some r1"
        by (simp add: s4_def getNextNonce_frame rge(1))
      have n4: "nonceCounter s \<le> nonceCounter s4"
        using jsIncrement_ge [of "nonceCounter s"] by (simp add: s4_def getNextNonce_frame rge(4))
      show ?thesis
      proof (cases "signHint L rid plr (digitsCorrect h) (digitsInPlace h) (numericDistance h)
                      (nonceCounter s3) s4")
        case (Inl e)
        then have "snd ?pg = s4"
          using Some act paid Inr rg gn by (simp add: processGuess_def)
        with n4 show ?thesis by simp
      next
        case sig: (Inr hintSig)
        obtain out r2 s5 where ep: "escalatePrice L clk rid h r1 s4 = (out, r2, s5)"
          by (cases "escalatePrice L clk rid h r1 s4") auto
        note epe = escalatePrice_effect [OF ep r4']
        have r5': "rounds s5 rid = Some r2" using epe(1) by simp
        have n5: "nonceCounter s \<le> nonceCounter s5" using n4 epe(6) by simp
        show ?thesis
        proof (cases out)
          case (Inl e)
          then have "snd ?pg = s5"
            using Some act paid Inr rg gn sig ep by (simp add: processGuess_def)
          with n5 show ?thesis by simp
        next
          case pu: (Inr pUpdate)
          obtain wout r3 s6 where dw: "declareWinner L clk rid plr h r2 s5 = (wout, r3, s6)"
            by (cases "declareWinner L clk rid plr h r2 s5") auto
          note dwe = declareWinner_effect [OF dw r5']
          have "snd ?pg = s6"
            using Some act paid Inr rg gn sig ep pu dw
            by (cases wout) (simp_all add: processGuess_def)
          with n5 dwe(7) show ?thesis by simp
        qed
      qed
    qed
  qed
qed

lemma step_nonce_mono:
  assumes "\<forall>key. op \<noteq> OpInitSigner key \<and> op \<noteq> OpInitSignerFromMnemonic key"
  shows "nonceCounter s \<le> nonceCounter (step L op s)"
proof (cases op)
  case (OpInitSigner k)
  with assms show ?thesis by simp
next
  case (OpInitSignerFromMnemonic m)
  with assms show ?thesis by simp
next
  case (OpStartNewRound inp base)
  then show ?thesis using jsIncrement_ge [of "nonceCounter s"] by (simp add: startNewRound_nonce)
next
  case (OpProcessGuess clk rid plr gs paid)
  then show ?thesis by (simp add: processGuess_nonce_mono)
next
  case (OpGetAuditTrail x)
  then show ?thesis by (simp add: getAuditTrail_def getOrCreateTrail_frame)
next
  case (OpComputeMerkleRoot x)
  then show ?thesis by (simp add: computeMerkleRoot_frame)
next
  case (OpGetSignedAuditRoot x)
  then show ?thesis using jsIncrement_ge [of "nonceCounter s"] by (simp add: getSignedAuditRoot_frame)
qed

lemma processGuess_success_nonces:
  assumes pg: "processGuess L clk rid plr gs paid s = (Inr res, s')"
    and bound: "nonceCounter s + 3 \<le> 2 ^ 53"
  shows "guessNonces res = [nonceCounter s ..< nonceCounter s']"
proof -
  from pg obtain r where r: "rounds s rid = Some r"
    by (cases "rounds s rid") (auto simp: processGuess_def)
  from pg r have act: "status r = Active" and paid: "\<not> paid < currentBuyIn r"
    by (auto simp: processGuess_def split: if_splits)
  from pg r act paid obtain h where h: "calculateDistance (target r) gs DEFAULT_PRICING_CONFIG = Inr h"
    by (cases "calculateDistance (target r) gs DEFAULT_PRICING_CONFIG") (auto simp: processGuess_def)
  have "signer s \<noteq> None"
  proof
    assume "signer s = None"
    from processGuess_unsigned [OF r act paid h this, of L clk plr] pg show False by simp
  qed
  then obtain w where sg: "signer s = Some w" by auto
  from processGuess_signed [OF r act paid h sg, of L clk plr] pg
  have gn: "guessNonces res =
              map (\<lambda>i. (jsIncrement ^^ i) (nonceCounter s)) [0..<length (guessNonces res)]"
    and fin: "nonceCounter s' = (jsIncrement ^^ length (guessNonces res)) (nonceCounter s)"
    and len: "length (guessNonces res) \<le> 3"
    by auto
  from len bound have b: "nonceCounter s + length (guessNonces res) \<le> 2 ^ 53" by simp
  have "map (\<lambda>i. (jsIncrement ^^ i) (nonceCounter s)) [0..<length (guessNonces res)]
          = map (\<lambda>i. nonceCounter s + i) [0..<length (guessNonces res)]"
    using b by (intro map_cong refl jsIncrement_funpow) simp
  also have "\<dots> = map (\<lambda>i. i + nonceCounter s) [0..<length (guessNonces res)]"
    by (simp add: add.commute)
  also have "\<dots> = [nonceCounter s ..< nonceCounter s + length (guessNonces res)]"
    by (simp only: map_add_upt add.commute)
  finally show ?thesis using gn fin jsIncrement_funpow [OF b] by simp
qed


text \<open>
  Claim C9 (as amended). Every nonce is drawn from the one counter \<open>nonceCounter\<close>, shared by
  all rounds and by all five message kinds: a signed start, hint, price update, winner
  declaration or audit root carries the counter's value at the time, and one call's messages
  carry consecutive values. While the counter stays below \<open>2 ^ 53\<close>, successive allocations
  are consecutive (strictly increasing and gap-free), and no operation other than the two
  signer initialisations lowers the counter. Initialising the signer resets the counter
  to \<open>0\<close>.
\<close>

theorem nonce_allocation:
  "(nonceCounter s + k \<le> 2 ^ 53 \<longrightarrow>
      fst (takeNonces k s) = [nonceCounter s ..< nonceCounter s + k]
      \<and> nonceCounter (snd (takeNonces k s)) = nonceCounter s + k)
   \<and> ((\<forall>key. op \<noteq> OpInitSigner key \<and> op \<noteq> OpInitSignerFromMnemonic key) \<longrightarrow>
        nonceCounter s \<le> nonceCounter (step L op s))
   \<and> (\<forall>res s'. processGuess L clk rid plr gs paid s = (Inr res, s')
          \<and> nonceCounter s + 3 \<le> 2 ^ 53 \<longrightarrow>
        guessNonces res = [nonceCounter s ..< nonceCounter s'])
   \<and> (\<forall>r m s'. startNewRound L inp base s = (Inr (r, m), s') \<and> nonceCounter s < 2 ^ 53 \<longrightarrow>
        ssr_nonce m = nonceCounter s \<and> nonceCounter s' = nonceCounter s + 1)
   \<and> (\<forall>m s'. getSignedAuditRoot L rid s = (Inr m, s') \<and> nonceCounter s < 2 ^ 53 \<longrightarrow>
        sar_nonce m = nonceCounter s \<and> nonceCounter s' = nonceCounter s + 1)
   \<and> nonceCounter (initSigner key s) = 0
   \<and> nonceCounter (initSignerFromMnemonic mnemonic s) = 0"
proof (intro conjI allI impI)
  assume "nonceCounter s + k \<le> 2 ^ 53"
  from takeNonces_consecutive [OF this]
  show "fst (takeNonces k s) = [nonceCounter s ..< nonceCounter s + k]"
    and "nonceCounter (snd (takeNonces k s)) = nonceCounter s + k" by simp_all
next
  assume "\<forall>key. op \<noteq> OpInitSigner key \<and> op \<noteq> OpInitSignerFromMnemonic key"
  then show "nonceCounter s \<le> nonceCounter (step L op s)" by (rule step_nonce_mono)
next
  fix res s'
  assume "processGuess L clk rid plr gs paid s = (Inr res, s') \<and> nonceCounter s + 3 \<le> 2 ^ 53"
  then show "guessNonces res = [nonceCounter s ..< nonceCounter s']"
    using processGuess_success_nonces by blast
next
  fix r m s'
  assume a: "startNewRound L inp base s = (Inr (r, m), s') \<and> nonceCounter s < 2 ^ 53"
  then show "ssr_nonce m = nonceCounter s" using startNewRound_message by blast
  from a have "s' = snd (startNewRound L inp base s)" by simp
  with a show "nonceCounter s' = nonceCounter s + 1"
    by (simp add: startNewRound_nonce jsIncrement_exact)
next
  fix m s'
  assume a: "getSignedAuditRoot L rid s = (Inr m, s') \<and> nonceCounter s < 2 ^ 53"
  then show "sar_nonce m = nonceCounter s" using getSignedAuditRoot_message by blast
  from a have "s' = snd (getSignedAuditRoot L rid s)" by simp
  with a show "nonceCounter s' = nonceCounter s + 1"
    by (simp add: getSignedAuditRoot_frame jsIncrement_exact)
next
  show "nonceCounter (initSigner key s) = 0" by (simp add: initSigner_def)
  show "nonceCounter (initSignerFromMnemonic mnemonic s) = 0"
    by (simp add: initSignerFromMnemonic_def)
qed

lemma sampleSigned_nonce: "nonceCounter (sampleSigned base) = 1"
  by (simp add: sampleSigned_def startNewRound_nonce initSigner_def jsIncrement_def)

lemma sample_win_nonces:
  "\<exists>res s'. processGuess sampleLib sampleClock ''r1'' ''0xp'' ''123456789012'' 10000000000000000
               (sampleSigned 10000000000000000) = (Inr res, s')
     \<and> length (guessNonces res) = 3 \<and> nonceCounter s' = 4"
proof -
  let ?r = "\<lparr> round_id = ''r1'', target = ''123456789012'', salt = ''0xab'',
            commitmentHash = computeCommitment sampleLib ''123456789012'' ''r1'' ''0xab'',
            baseBuyIn = 10000000000000000, currentBuyIn = 10000000000000000,
            currentTier = Base, pool = 0, guesses = [],
            status = Active, winner = None, startTimestamp = 1000, endTimestamp = None \<rparr>"
  have "bullCount ''123456789012'' ''123456789012'' = 12"
    using bullCount_full [of "''123456789012''" "''123456789012''"] by simp
  then obtain h
    where h: "calculateDistance (target ?r) ''123456789012'' DEFAULT_PRICING_CONFIG = Inr h"
      and m: "isExactMatch h" and d: "numericDistance h = 0"
    using calculateDistance_12 [OF is12_samples(1) is12_samples(1), of DEFAULT_PRICING_CONFIG]
    by simp
  have su: "shouldUpdatePrice (currentTier ?r) (numericDistance h) DEFAULT_PRICING_CONFIG"
    by (simp add: d shouldUpdatePrice_def determinePriceTier_default tierIndex_values)
  have act: "status ?r = Active" and paid: "\<not> 10000000000000000 < currentBuyIn ?r"
    by simp_all
  from processGuess_signed [OF sampleSigned_round act paid h sampleSigned_signer,
      of sampleLib sampleClock "''0xp''"]
  obtain res s' where
    pg: "processGuess sampleLib sampleClock ''r1'' ''0xp'' ''123456789012'' 10000000000000000
           (sampleSigned 10000000000000000) = (Inr res, s')"
    and fin: "nonceCounter s' =
         (jsIncrement ^^ length (guessNonces res)) (nonceCounter (sampleSigned 10000000000000000))"
    and len: "length (guessNonces res) =
                1 + (if shouldUpdatePrice (currentTier ?r) (numericDistance h) DEFAULT_PRICING_CONFIG
                     then 1 else 0)
                  + (if isExactMatch h then 1 else 0)"
    by blast
  from len su m have l3: "length (guessNonces res) = 3" by simp
  have "nonceCounter s' = 4"
    unfolding fin l3 sampleSigned_nonce by (simp add: jsIncrement_funpow)
  with pg l3 show ?thesis by blast
qed

theorem nonce_allocation_witness:
  "fst (takeNonces 3 initEngine) = [0, 1, 2]
   \<and> nonceCounter initEngine \<le> nonceCounter (step sampleLib (OpGetAuditTrail ''r1'') initEngine)
   \<and> map_sum (\<lambda>e. e) guessNonces
        (fst (processGuess sampleLib sampleClock ''r1'' ''0xp'' ''123456789012'' 10000000000000000
               (sampleSigned 10000000000000000))) = Inr [1, 2, 3]
   \<and> map_sum (\<lambda>e. e) (\<lambda>p. ssr_nonce (snd p))
        (fst (startNewRound sampleLib (sampleStart ''r1'') 10000000000000000
               (initSigner ''k'' initEngine))) = Inr 0
   \<and> map_sum (\<lambda>e. e) sar_nonce
        (fst (getSignedAuditRoot sampleLib ''r1'' (sampleSigned 10000000000000000))) = Inr 1"
proof -
  have n0: "nonceCounter initEngine = 0" by (simp add: initEngine_def)
  note thm0 = nonce_allocation [of initEngine 3 "OpGetAuditTrail ''r1''" sampleLib]
  from thm0 n0 have a: "fst (takeNonces 3 initEngine) = [0, 1, 2]"
    by (simp add: upt_rec)
  from thm0 have b: "nonceCounter initEngine
       \<le> nonceCounter (step sampleLib (OpGetAuditTrail ''r1'') initEngine)"
    by blast
  from sample_win_nonces obtain res s' where
    pg: "processGuess sampleLib sampleClock ''r1'' ''0xp'' ''123456789012'' 10000000000000000
               (sampleSigned 10000000000000000) = (Inr res, s')"
    and s': "nonceCounter s' = 4" by blast
  have "nonceCounter (sampleSigned 10000000000000000) + 3 \<le> 2 ^ 53"
    by (simp add: sampleSigned_nonce)
  with nonce_allocation [of "sampleSigned 10000000000000000" 0 "OpGetAuditTrail ''r1''" sampleLib
      sampleClock "''r1''" "''0xp''" "''123456789012''" 10000000000000000] pg
  have "guessNonces res = [nonceCounter (sampleSigned 10000000000000000) ..< nonceCounter s']"
    by blast
  then have c: "guessNonces res = [1, 2, 3]"
    by (simp add: sampleSigned_nonce s' upt_rec)
  have sg0: "signer (initSigner ''k'' initEngine) = Some (FromPrivateKey ''k'')"
    and ni: "nonceCounter (initSigner ''k'' initEngine) = 0"
    by (simp_all add: initSigner_def)
  from startNewRound_signed [OF sg0, of sampleLib "sampleStart ''r1''" 10000000000000000] ni
  have d: "map_sum (\<lambda>e. e) (\<lambda>p. ssr_nonce (snd p))
        (fst (startNewRound sampleLib (sampleStart ''r1'') 10000000000000000
               (initSigner ''k'' initEngine))) = Inr 0"
    by auto
  from getSignedAuditRoot_signed [OF sampleSigned_signer, of sampleLib "''r1''" 10000000000000000]
  have e: "map_sum (\<lambda>e. e) sar_nonce
        (fst (getSignedAuditRoot sampleLib ''r1'' (sampleSigned 10000000000000000))) = Inr 1"
    by (auto simp: sampleSigned_nonce)
  from a b c d e pg show ?thesis by simp
qed

theorem nonce_reissued_counterexample:
  "map_sum (\<lambda>e. e) (\<lambda>p. ssr_nonce (snd p))
     (fst (startNewRound sampleLib (sampleStart ''r1'') 10000000000000000
            (initSigner ''k'' initEngine))) = Inr 0
   \<and> map_sum (\<lambda>e. e) (\<lambda>p. ssr_nonce (snd p))
     (fst (startNewRound sampleLib (sampleStart ''r2'') 10000000000000000
            (initSigner ''k'' (sampleSigned 10000000000000000)))) = Inr 0"
proof -
  have sg0: "signer (initSigner ''k'' initEngine) = Some (FromPrivateKey ''k'')"
    and ni: "nonceCounter (initSigner ''k'' initEngine) = 0"
    and sg1: "signer (initSigner ''k'' (sampleSigned 10000000000000000)) = Some (FromPrivateKey ''k'')"
    and n1: "nonceCounter (initSigner ''k'' (sampleSigned 10000000000000000)) = 0"
    by (simp_all add: initSigner_def)
  from startNewRound_signed [OF sg0, of sampleLib "sampleStart ''r1''" 10000000000000000] ni
    startNewRound_signed [OF sg1, of sampleLib "sampleStart ''r2''" 10000000000000000] n1
  show ?thesis by auto
qed

section \<open>The hash chain\<close>

declare verifyLoop.simps [simp del]

text \<open>One round of the verification loop.\<close>

lemma verifyLoop_unroll:
  "i < length es \<Longrightarrow>
     verifyLoop L es i =
       (if previousHash (es ! i) \<noteq> (if i > 0 then hash (es ! (i - 1)) else ZERO_HASH)
        then Inr False
        else (case entryHash L (es ! i) of
                Inl err \<Rightarrow> Inl err
              | Inr expectedHash \<Rightarrow>
                  if hash (es ! i) \<noteq> expectedHash then Inr False
                  else verifyLoop L es (i + 1)))"
  by (subst verifyLoop.simps) (simp add: Let_def)

lemma verifyLoop_done: "\<not> i < length es \<Longrightarrow> verifyLoop L es i = Inr True"
  by (subst verifyLoop.simps) simp

lemma verifyLoop_pass:
  "i < length es \<Longrightarrow> chainOk L es i \<Longrightarrow> verifyLoop L es i = verifyLoop L es (i + 1)"
  by (simp add: verifyLoop_unroll chainOk_def)

lemma verifyLoop_stop:
  "i < length es \<Longrightarrow> \<not> chainOk L es i \<Longrightarrow> verifyLoop L es i \<noteq> Inr True"
  by (auto simp: verifyLoop_unroll chainOk_def split: sum.splits)

lemma verifyLoop_iff:
  "verifyLoop L es i = Inr True \<longleftrightarrow> (\<forall>j. i \<le> j \<and> j < length es \<longrightarrow> chainOk L es j)"
proof (induction L es i rule: verifyLoop.induct)
  case (1 L es i)
  show ?case
  proof (cases "i < length es")
    case False
    then show ?thesis by (auto simp: verifyLoop_done)
  next
    case True
    show ?thesis
    proof (cases "chainOk L es i")
      case False
      with True have "verifyLoop L es i \<noteq> Inr True" by (rule verifyLoop_stop)
      moreover from False True have "\<not> (\<forall>j. i \<le> j \<and> j < length es \<longrightarrow> chainOk L es j)"
        by auto
      ultimately show ?thesis by simp
    next
      case ok: True
      then obtain h where h: "entryHash L (es ! i) = Inr h" "hash (es ! i) = h"
        and p: "previousHash (es ! i) = (if i > 0 then hash (es ! (i - 1)) else ZERO_HASH)"
        by (simp add: chainOk_def)
      have "verifyLoop L es i = verifyLoop L es (i + 1)"
        using True ok by (rule verifyLoop_pass)
      also have "\<dots> = Inr True \<longleftrightarrow> (\<forall>j. i + 1 \<le> j \<and> j < length es \<longrightarrow> chainOk L es j)"
        using "1.IH" [OF True refl refl _ h(1)] p h(2) by simp
      also have "\<dots> \<longleftrightarrow> (\<forall>j. i \<le> j \<and> j < length es \<longrightarrow> chainOk L es j)"
      proof
        assume a: "\<forall>j. i + 1 \<le> j \<and> j < length es \<longrightarrow> chainOk L es j"
        show "\<forall>j. i \<le> j \<and> j < length es \<longrightarrow> chainOk L es j"
        proof (intro allI impI)
          fix j assume "i \<le> j \<and> j < length es"
          then show "chainOk L es j" using a ok by (cases "j = i") auto
        qed
      next
        assume "\<forall>j. i \<le> j \<and> j < length es \<longrightarrow> chainOk L es j"
        then show "\<forall>j. i + 1 \<le> j \<and> j < length es \<longrightarrow> chainOk L es j" by auto
      qed
      finally show ?thesis .
    qed
  qed
qed

lemma verifyLoop_all:
  "verifyLoop L es 0 = Inr True \<longleftrightarrow> (\<forall>j < length es. chainOk L es j)"
  by (simp add: verifyLoop_iff)

text \<open>Entries that pass are skipped.\<close>

lemma verifyLoop_skip:
  "\<forall>j. i \<le> j \<and> j < k \<longrightarrow> chainOk L es j \<Longrightarrow> i \<le> k \<Longrightarrow> k \<le> length es \<Longrightarrow>
     verifyLoop L es i = verifyLoop L es k"
proof (induction "k - i" arbitrary: i)
  case 0
  then show ?case by simp
next
  case (Suc n)
  then have lt: "i < length es" and ok: "chainOk L es i" by auto
  have "verifyLoop L es i = verifyLoop L es (i + 1)"
    using lt ok by (rule verifyLoop_pass)
  also have "\<dots> = verifyLoop L es k"
    using Suc.hyps(1) [of "i + 1"] Suc.hyps(2) Suc.prems by auto
  finally show ?case .
qed

lemma verifyChainIntegrity_entriesOf:
  "fst (verifyChainIntegrity L rid s) = verifyLoop L (entriesOf rid s) 0"
  by (simp add: verifyChainIntegrity_def getOrCreateTrail_def entriesOf_def Let_def
        split: option.splits)

lemma chainOk_append_old:
  "j < length es \<Longrightarrow> chainOk L (es @ [e]) j = chainOk L es j"
  by (cases j) (simp_all add: chainOk_def nth_append)

lemma addAuditEntry_keeps_chain:
  assumes ok: "verifyLoop L (entriesOf rid' s) 0 = Inr True"
    and now: "safeInteger now" and len: "safeInteger (length (entriesOf rid s))"
  shows "verifyLoop L (entriesOf rid' (snd (addAuditEntry L now rid ty d s))) 0 = Inr True"
proof (cases "rid' = rid")
  case False
  with ok show ?thesis by (simp add: addAuditEntry_entriesOf)
next
  case True
  let ?es = "entriesOf rid s"
  let ?e = "fst (addAuditEntry L now rid ty d s)"
  have new: "chainOk L (?es @ [?e]) (length ?es)"
    using now len by (simp add: chainOk_def addAuditEntry_entry entryHash_def nth_append)
  have "\<forall>j < length (?es @ [?e]). chainOk L (?es @ [?e]) j"
  proof (intro allI impI)
    fix j assume "j < length (?es @ [?e])"
    then consider "j < length ?es" | "j = length ?es" by fastforce
    then show "chainOk L (?es @ [?e]) j"
    proof cases
      case 1
      with ok True show ?thesis by (simp add: chainOk_append_old verifyLoop_all)
    next
      case 2
      with new show ?thesis by simp
    qed
  qed
  then show ?thesis using True by (simp add: addAuditEntry_entriesOf verifyLoop_all)
qed

lemma appendAll_keeps_chain:
  "\<forall>rid. verifyLoop L (entriesOf rid s) 0 = Inr True \<Longrightarrow>
   \<forall>rid. length (entriesOf rid s) + length items \<le> 2 ^ 53 \<Longrightarrow>
   \<forall>item \<in> set items. safeInteger (fst item) \<Longrightarrow>
     \<forall>rid. verifyLoop L (entriesOf rid (appendAll L items s)) 0 = Inr True"
proof (induction items arbitrary: s)
  case Nil
  then show ?case by (simp add: appendAll_def)
next
  case (Cons item items)
  obtain now rid ty d where item: "item = (now, rid, ty, d)" by (cases item) auto
  let ?s = "snd (addAuditEntry L now rid ty d s)"
  from Cons.prems(3) item have now: "safeInteger now" by simp
  from Cons.prems(2) have "length (entriesOf rid s) + Suc (length items) \<le> 2 ^ 53" by simp
  then have len: "safeInteger (length (entriesOf rid s))" by (simp add: safeInteger_def)
  have a: "\<forall>rid'. verifyLoop L (entriesOf rid' ?s) 0 = Inr True"
    using Cons.prems(1) addAuditEntry_keeps_chain [OF _ now len] by blast
  have b: "\<forall>rid'. length (entriesOf rid' ?s) + length items \<le> 2 ^ 53"
  proof
    fix rid'
    from Cons.prems(2) have "length (entriesOf rid' s) + Suc (length items) \<le> 2 ^ 53" by simp
    moreover have "length (entriesOf rid' ?s) \<le> Suc (length (entriesOf rid' s))"
      by (simp add: addAuditEntry_entriesOf)
    ultimately show "length (entriesOf rid' ?s) + length items \<le> 2 ^ 53"
      by linarith
  qed
  from Cons.prems(3) have c: "\<forall>item \<in> set items. safeInteger (fst item)" by simp
  from Cons.IH [OF a b c] show ?case by (simp add: appendAll_def item)
qed

lemma initEngine_chain: "verifyLoop L (entriesOf rid initEngine) 0 = Inr True"
  by (simp add: entriesOf_def initEngine_def verifyLoop_all)

lemma entriesOf_setEntries:
  "entriesOf rid (setEntries rid es s) = (if trails s rid = None then [] else es)"
  by (simp add: entriesOf_def setEntries_def split: option.splits)

text \<open>What the verification says after one entry of a verified trail was overwritten.\<close>

lemma verify_overwritten:
  assumes ok: "verifyLoop L es 0 = Inr True" and i: "i < length es"
  shows "verifyLoop L (es[i := e']) 0 =
           (if previousHash e' \<noteq> previousHash (es ! i) then Inr False
            else case entryHash L e' of
                   Inl err \<Rightarrow> Inl err
                 | Inr h \<Rightarrow> Inr (hash e' = h \<and> (i + 1 < length es \<longrightarrow> hash e' = hash (es ! i))))"
proof -
  let ?es = "es[i := e']"
  from ok have all: "\<And>j. j < length es \<Longrightarrow> chainOk L es j" by (simp add: verifyLoop_all)
  have prev_i: "(if i > 0 then hash (es ! (i - 1)) else ZERO_HASH) = previousHash (es ! i)"
    using all [OF i] by (simp add: chainOk_def)
  have before: "\<forall>j. 0 \<le> j \<and> j < i \<longrightarrow> chainOk L ?es j"
  proof (intro allI impI)
    fix j assume "0 \<le> j \<and> j < i"
    then have j: "j < i" by simp
    then have "?es ! j = es ! j" "?es ! (j - 1) = es ! (j - 1)" by simp_all
    then show "chainOk L ?es j" using all [of j] j i by (simp add: chainOk_def)
  qed
  have skip: "verifyLoop L ?es 0 = verifyLoop L ?es i"
    using verifyLoop_skip [OF before] i by simp
  have after: "chainOk L ?es j" if "i + 1 < j" "j < length es" for j
  proof -
    from that have "?es ! j = es ! j" "?es ! (j - 1) = es ! (j - 1)" by simp_all
    then show ?thesis using all [OF that(2)] that(1) by (simp add: chainOk_def)
  qed
  have tail: "verifyLoop L ?es (i + 1) =
                Inr (i + 1 < length es \<longrightarrow> hash e' = hash (es ! i))"
  proof (cases "i + 1 < length es")
    case False
    then show ?thesis by (simp add: verifyLoop_done)
  next
    case True
    from all [OF True] have nx: "previousHash (es ! (i + 1)) = hash (es ! i)"
      "entryHash L (es ! (i + 1)) = Inr (hash (es ! (i + 1)))"
      by (simp_all add: chainOk_def)
    have rest: "verifyLoop L ?es (i + 1 + 1) = Inr True"
      unfolding verifyLoop_iff using after by simp
    show ?thesis
      using True i nx rest by (simp add: verifyLoop_unroll)
  qed
  from i have li: "i < length ?es" and at: "?es ! i = e'" by simp_all
  have exp: "(if i > 0 then hash (?es ! (i - 1)) else ZERO_HASH) = previousHash (es ! i)"
    using prev_i by (cases i) simp_all
  have "verifyLoop L ?es i =
          (if previousHash e' \<noteq> previousHash (es ! i) then Inr False
           else case entryHash L e' of
                  Inl err \<Rightarrow> Inl err
                | Inr h \<Rightarrow> if hash e' \<noteq> h then Inr False else verifyLoop L ?es (i + 1))"
    using verifyLoop_unroll [OF li, of L] unfolding at exp .
  then show ?thesis
    unfolding skip tail by (auto split: sum.splits)
qed

lemma trails_appendAll_initEngine:
  "i < length (entriesOf rid (appendAll L items initEngine)) \<Longrightarrow>
     trails (appendAll L items initEngine) rid \<noteq> None"
  by (auto simp: entriesOf_def split: option.splits)

text \<open>
  Claim C7 (as amended). Chain verification returns true for every audit trail built solely
  through the append operation, the empty trail included (the clock readings are time
  values and the number of appends is that of a JavaScript array: safe integers). When
  afterwards one stored entry of such a trail is overwritten, verification returns false if
  the new entry's \<open>previousHash\<close> is not the old one; otherwise it throws when the new
  entry's stored index or timestamp is not a safe integer; otherwise it returns true exactly
  if the new entry's stored hash is the hash recomputed from its stored fields and, unless
  it is the last entry, is the old stored hash, and false in every other case. In
  particular an altered \<open>previousHash\<close> is always answered with false; altered field
  contents pass when they are those of the last entry and the stored hash is recomputed to
  match them.
\<close>

theorem chain_verification:
  assumes "\<forall>item \<in> set items. safeInteger (fst item)" and "length items \<le> 2 ^ 53"
  shows
  "fst (verifyChainIntegrity L rid (appendAll L items initEngine)) = Inr True
   \<and> (\<forall>i e'. i < length (entriesOf rid (appendAll L items initEngine)) \<longrightarrow>
        fst (verifyChainIntegrity L rid
               (setEntries rid ((entriesOf rid (appendAll L items initEngine))[i := e'])
                  (appendAll L items initEngine)))
        = (if previousHash e' \<noteq> previousHash (entriesOf rid (appendAll L items initEngine) ! i)
           then Inr False
           else case entryHash L e' of
                  Inl err \<Rightarrow> Inl err
                | Inr h \<Rightarrow>
                    Inr (hash e' = h
                         \<and> (i + 1 < length (entriesOf rid (appendAll L items initEngine)) \<longrightarrow>
                              hash e' = hash (entriesOf rid (appendAll L items initEngine) ! i)))))"
proof (intro conjI allI impI)
  let ?s = "appendAll L items initEngine"
  have "\<forall>rid. length (entriesOf rid initEngine) + length items \<le> 2 ^ 53"
    using assms(2) by (simp add: entriesOf_def initEngine_def)
  with appendAll_keeps_chain [of L initEngine items] initEngine_chain assms(1)
  have ok: "verifyLoop L (entriesOf rid ?s) 0 = Inr True" by blast
  then show "fst (verifyChainIntegrity L rid ?s) = Inr True"
    by (simp add: verifyChainIntegrity_entriesOf)
  fix i e'
  assume i: "i < length (entriesOf rid ?s)"
  note tr = trails_appendAll_initEngine [OF i]
  have "entriesOf rid (setEntries rid ((entriesOf rid ?s)[i := e']) ?s) = (entriesOf rid ?s)[i := e']"
    by (simp add: entriesOf_setEntries tr)
  then show "fst (verifyChainIntegrity L rid (setEntries rid ((entriesOf rid ?s)[i := e']) ?s))
        = (if previousHash e' \<noteq> previousHash (entriesOf rid ?s ! i) then Inr False
           else case entryHash L e' of
                  Inl err \<Rightarrow> Inl err
                | Inr h \<Rightarrow>
                    Inr (hash e' = h
                         \<and> (i + 1 < length (entriesOf rid ?s) \<longrightarrow>
                              hash e' = hash (entriesOf rid ?s ! i))))"
    using verify_overwritten [OF ok i, of e'] by (simp add: verifyChainIntegrity_entriesOf)
qed

lemma twoAppends_entries:
  assumes "\<And>i ty rid d ts p. keccak L (EntryFields i ty rid d ts p) = d"
    and "stringify L = (\<lambda>d. concat (map fst d))"
  shows "entriesOf ''r1''
       (appendAll L
          [(1001, ''r1'', RoundStart, [(''a'', JBool True)]),
           (1002, ''r1'', Guess, [(''b'', JBool True)])] initEngine) =
     [\<lparr> index = 0, entry_type = RoundStart, roundId = ''r1'', data = ''a'',
        entry_timestamp = 1001, previousHash = ZERO_HASH, hash = ''a'' \<rparr>,
      \<lparr> index = 1, entry_type = Guess, roundId = ''r1'', data = ''b'',
        entry_timestamp = 1002, previousHash = ''a'', hash = ''b'' \<rparr>]"
proof -
  have e0: "entriesOf ''r1'' initEngine = []"
    by (simp add: entriesOf_def initEngine_def)
  show ?thesis
    unfolding appendAll_def
    by (simp add: addAuditEntry_entriesOf addAuditEntry_entry e0 assms)
qed

lemma sampleTrail_entries:
  "entriesOf ''r1'' sampleTrail =
     [\<lparr> index = 0, entry_type = RoundStart, roundId = ''r1'', data = ''a'',
        entry_timestamp = 1001, previousHash = ZERO_HASH, hash = ''a'' \<rparr>,
      \<lparr> index = 1, entry_type = Guess, roundId = ''r1'', data = ''b'',
        entry_timestamp = 1002, previousHash = ''a'', hash = ''b'' \<rparr>]"
  unfolding sampleTrail_def by (rule twoAppends_entries) (simp_all add: sampleLib_def)

lemma sampleItems_safe:
  "\<forall>item \<in> set [(1001, ''r1'', RoundStart, [(''a'', JBool True)]),
                  (1002::nat, ''r1'', Guess, [(''b'', JBool True)])]. safeInteger (fst item)"
  "length [(1001, ''r1'', RoundStart, [(''a'', JBool True)]),
           (1002::nat, ''r1'', Guess, [(''b'', JBool True)])] \<le> 2 ^ 53"
  by (simp_all add: safeInteger_def)

theorem chain_verification_witness:
  "fst (verifyChainIntegrity sampleLib ''r1'' sampleTrail) = Inr True
   \<and> length (entriesOf ''r1'' sampleTrail) = 2
   \<and> fst (verifyChainIntegrity sampleLib ''r1''
            (setEntries ''r1''
               ((entriesOf ''r1'' sampleTrail)
                  [0 := (entriesOf ''r1'' sampleTrail ! 0)\<lparr> data := ''forged'', hash := ''forged'' \<rparr>])
               sampleTrail)) = Inr False
   \<and> fst (verifyChainIntegrity sampleLib ''r1''
            (setEntries ''r1''
               ((entriesOf ''r1'' sampleTrail)
                  [1 := (entriesOf ''r1'' sampleTrail ! 1)\<lparr> previousHash := ZERO_HASH \<rparr>])
               sampleTrail)) = Inr False
   \<and> fst (verifyChainIntegrity sampleLib ''r1''
            (setEntries ''r1''
               ((entriesOf ''r1'' sampleTrail)
                  [1 := (entriesOf ''r1'' sampleTrail ! 1)\<lparr> entry_timestamp := 2 ^ 53 \<rparr>])
               sampleTrail)) = Inl NumericOverflow"
proof -
  note thm0 = chain_verification [OF sampleItems_safe, of sampleLib "''r1''",
      folded sampleTrail_def]
  have k: "\<And>i ty rid d ts p. keccak sampleLib (EntryFields i ty rid d ts p) = d"
    by (simp add: sampleLib_def)
  have len: "length (entriesOf ''r1'' sampleTrail) = 2"
    by (simp add: sampleTrail_entries)
  from thm0 have a: "fst (verifyChainIntegrity sampleLib ''r1'' sampleTrail) = Inr True" by blast
  have i0: "0 < length (entriesOf ''r1'' sampleTrail)" and i1: "1 < length (entriesOf ''r1'' sampleTrail)"
    using len by simp_all
  from thm0 have gen: "\<And>i e'. i < length (entriesOf ''r1'' sampleTrail) \<Longrightarrow>
        fst (verifyChainIntegrity sampleLib ''r1''
               (setEntries ''r1'' ((entriesOf ''r1'' sampleTrail)[i := e']) sampleTrail))
        = (if previousHash e' \<noteq> previousHash (entriesOf ''r1'' sampleTrail ! i) then Inr False
           else case entryHash sampleLib e' of
                  Inl err \<Rightarrow> Inl err
                | Inr h \<Rightarrow>
                    Inr (hash e' = h
                         \<and> (i + 1 < length (entriesOf ''r1'' sampleTrail) \<longrightarrow>
                              hash e' = hash (entriesOf ''r1'' sampleTrail ! i))))"
    by blast
  have b: "fst (verifyChainIntegrity sampleLib ''r1''
            (setEntries ''r1''
               ((entriesOf ''r1'' sampleTrail)
                  [0 := (entriesOf ''r1'' sampleTrail ! 0)\<lparr> data := ''forged'', hash := ''forged'' \<rparr>])
               sampleTrail)) = Inr False"
    unfolding gen [OF i0]
    by (simp add: sampleTrail_entries entryHash_def safeInteger_def k)
  have c: "fst (verifyChainIntegrity sampleLib ''r1''
            (setEntries ''r1''
               ((entriesOf ''r1'' sampleTrail)
                  [1 := (entriesOf ''r1'' sampleTrail ! 1)\<lparr> previousHash := ZERO_HASH \<rparr>])
               sampleTrail)) = Inr False"
    unfolding gen [OF i1]
    by (simp add: sampleTrail_entries ZERO_HASH_def)
  have d: "fst (verifyChainIntegrity sampleLib ''r1''
            (setEntries ''r1''
               ((entriesOf ''r1'' sampleTrail)
                  [1 := (entriesOf ''r1'' sampleTrail ! 1)\<lparr> entry_timestamp := 2 ^ 53 \<rparr>])
               sampleTrail)) = Inl NumericOverflow"
    unfolding gen [OF i1]
    by (simp add: sampleTrail_entries entryHash_def safeInteger_def)
  from a len b c d show ?thesis by blast
qed

text \<open>The forged last entry differs from the stored one in its data and in its hash, and
  the forged trail passes the verification.\<close>

theorem forged_last_entry_counterexample:
  "data (entriesOf ''r1'' sampleTrail ! 1) = ''b''
   \<and> hash (entriesOf ''r1'' sampleTrail ! 1) = ''b''
   \<and> data sampleForged = ''forged''
   \<and> hash sampleForged = ''forged''
   \<and> fst (verifyChainIntegrity sampleLib ''r1''
            (setEntries ''r1'' ((entriesOf ''r1'' sampleTrail)[1 := sampleForged]) sampleTrail))
       = Inr True"
proof -
  have tr: "trails sampleTrail ''r1'' \<noteq> None"
    using sampleTrail_entries by (auto simp: entriesOf_def split: option.splits)
  have "\<forall>rid. length (entriesOf rid initEngine)
            + length [(1001, ''r1'', RoundStart, [(''a'', JBool True)]),
                      (1002::nat, ''r1'', Guess, [(''b'', JBool True)])] \<le> 2 ^ 53"
    by (simp add: entriesOf_def initEngine_def)
  with appendAll_keeps_chain [of sampleLib initEngine] initEngine_chain sampleItems_safe(1)
  have ok: "verifyLoop sampleLib (entriesOf ''r1'' sampleTrail) 0 = Inr True"
    unfolding sampleTrail_def by blast
  have i: "1 < length (entriesOf ''r1'' sampleTrail)"
    by (simp add: sampleTrail_entries)
  have k: "\<And>i ty rid d ts p. keccak sampleLib (EntryFields i ty rid d ts p) = d"
    by (simp add: sampleLib_def)
  have "verifyLoop sampleLib ((entriesOf ''r1'' sampleTrail)[1 := sampleForged]) 0 = Inr True"
    unfolding verify_overwritten [OF ok i]
    by (simp add: sampleTrail_entries sampleForged_def entryHash_def safeInteger_def k)
  then have "fst (verifyChainIntegrity sampleLib ''r1''
            (setEntries ''r1'' ((entriesOf ''r1'' sampleTrail)[1 := sampleForged]) sampleTrail))
        = Inr True"
    by (simp add: verifyChainIntegrity_entriesOf entriesOf_setEntries tr)
  then show ?thesis
    by (simp add: sampleTrail_entries sampleForged_def k)
qed

section \<open>The Merkle root of a trail\<close>















end
